theory Spec2Isabelle
  imports Complex_Main
begin

section \<open>Numbers\<close>

text \<open>
  The exact-arithmetic reading of a JavaScript number: \<open>Num r\<close> is the finite number
  \<open>r\<close>, and \<open>NaN\<close> is the value that arithmetic produces from \<open>undefined\<close> (an
  out-of-range array read), from a non-numeric string, or from another \<open>NaN\<close>.
  Rounding, underflow and overflow are not part of this reading, and neither are
  the infinities: a division by zero is given the value \<open>NaN\<close>, so a result \<open>Num r\<close>
  is one that the program computes with finite intermediate values only. What the
  program does in double precision is the subject of the section on double
  precision below, which reads \<open>linspace\<close> and \<open>rbf\<close> with every operation rounded.
\<close>

datatype jsnum = Num real | NaN

datatype js_error = TypeError | RangeError

fun jadd :: "jsnum \<Rightarrow> jsnum \<Rightarrow> jsnum" where
  "jadd (Num a) (Num b) = Num (a + b)"
| "jadd _ _ = NaN"

fun jsub :: "jsnum \<Rightarrow> jsnum \<Rightarrow> jsnum" where
  "jsub (Num a) (Num b) = Num (a - b)"
| "jsub _ _ = NaN"

fun jmul :: "jsnum \<Rightarrow> jsnum \<Rightarrow> jsnum" where
  "jmul (Num a) (Num b) = Num (a * b)"
| "jmul _ _ = NaN"

fun jdiv :: "jsnum \<Rightarrow> jsnum \<Rightarrow> jsnum" where
  "jdiv (Num a) (Num b) = (if b = 0 then NaN else Num (a / b))"
| "jdiv _ _ = NaN"

text \<open>\<open>Math.max\<close> and \<open>Math.sqrt\<close>: both return \<open>NaN\<close> on a \<open>NaN\<close> argument.\<close>

fun jmax :: "jsnum \<Rightarrow> jsnum \<Rightarrow> jsnum" where
  "jmax (Num a) (Num b) = Num (max a b)"
| "jmax _ _ = NaN"

fun jsqrt :: "jsnum \<Rightarrow> jsnum" where
  "jsqrt (Num a) = (if a < 0 then NaN else Num (sqrt a))"
| "jsqrt NaN = NaN"

text \<open>
  \<open>xs[i]\<close> read as an operand of arithmetic: \<open>undefined\<close>, the value of an
  out-of-range read, becomes \<open>NaN\<close> there.
\<close>

definition rd :: "jsnum list \<Rightarrow> nat \<Rightarrow> jsnum" where
  "rd xs i = (if i < length xs then xs ! i else NaN)"

section \<open>utilities.ts\<close>

text \<open>
  A matrix is a list of rows. A size is a natural number. \<open>Array(n)\<close> throws a
  \<open>RangeError\<close> for \<open>n\<close> of \<open>2\<^sup>3\<^sup>2\<close> or more; \<open>full\<close> is called here with the length of
  an array only, which is below that.
\<close>

definition full :: "nat \<Rightarrow> nat \<Rightarrow> jsnum \<Rightarrow> jsnum list list" where
  "full n m val = replicate n (replicate m val)"

definition eye :: "nat \<Rightarrow> jsnum list list" where
  "eye n = map (\<lambda>i. (full n n (Num 0) ! i)[i := Num 1]) [0..<n]"

text \<open>
  \<open>linspace\<close> in exact arithmetic. \<open>step\<close> is computed first; then \<open>Array(n)\<close> throws a
  \<open>RangeError\<close> for a length of \<open>2\<^sup>3\<^sup>2\<close> or more.
\<close>

definition linspace :: "real \<Rightarrow> real \<Rightarrow> nat \<Rightarrow> js_error + jsnum list" where
  "linspace start end' n =
     (let step = jdiv (Num (end' - start)) (Num (real n - 1))
      in if 2 ^ 32 \<le> n then Inl RangeError
         else Inr (map (\<lambda>i. jadd (Num start) (jmul (Num (real i)) step)) [0..<n]))"

text \<open>
  \<open>transpose\<close> (named \<open>transpose_mat\<close> here, beside the \<open>transpose\<close> of the list
  library) reads \<open>A[0].map\<close>: on an empty matrix \<open>A[0]\<close> is \<open>undefined\<close> and the
  call throws. The column count is that of the first row; an entry that a shorter
  row does not have is \<open>undefined\<close> (\<open>None\<close>).
\<close>

definition transpose_mat :: "jsnum list list \<Rightarrow> js_error + jsnum option list list" where
  "transpose_mat A =
     (case A of
        [] \<Rightarrow> Inl TypeError
      | r0 # _ \<Rightarrow>
          Inr (map (\<lambda>j. map (\<lambda>row. if j < length row then Some (row ! j) else None) A)
                 [0..<length r0]))"

text \<open>\<open>row.reduce((s, a, i) => s + a * x[i], 0)\<close>\<close>

definition reduce_dot :: "jsnum list \<Rightarrow> jsnum list \<Rightarrow> jsnum" where
  "reduce_dot row x = fold (\<lambda>i s. jadd s (jmul (row ! i) (rd x i))) [0..<length row] (Num 0)"

definition matVec :: "jsnum list list \<Rightarrow> jsnum list \<Rightarrow> jsnum list" where
  "matVec A x = map (\<lambda>row. reduce_dot row x) A"

definition addDiag :: "jsnum list list \<Rightarrow> jsnum \<Rightarrow> jsnum list list" where
  "addDiag A c =
     map (\<lambda>i. map (\<lambda>j. if i = j then jadd (A ! i ! j) c else A ! i ! j) [0..<length (A ! i)])
       [0..<length A]"

text \<open>
  \<open>cholesky\<close>: the three nested loops. \<open>chol_sum\<close> is the innermost loop over \<open>k\<close>,
  \<open>chol_step\<close> the body of the loop over \<open>j\<close> (one assignment to \<open>L[i][j]\<close>), and the
  two outer loops are folds over \<open>[0..<Suc i]\<close> and \<open>[0..<n]\<close>.
\<close>

definition chol_sum :: "jsnum list list \<Rightarrow> nat \<Rightarrow> nat \<Rightarrow> jsnum" where
  "chol_sum L i j = fold (\<lambda>k s. jadd s (jmul (rd (L ! i) k) (rd (L ! j) k))) [0..<j] (Num 0)"

definition chol_step :: "jsnum list list \<Rightarrow> nat \<Rightarrow> nat \<Rightarrow> jsnum list list \<Rightarrow> jsnum list list" where
  "chol_step A i j L =
     (let sum = chol_sum L i j
      in L[i := (L ! i)[j :=
           (if i = j
            then jsqrt (jmax (jsub (rd (A ! i) i) sum) (Num (1 / 10 ^ 10)))
            else jdiv (jsub (rd (A ! i) j) sum) (rd (L ! j) j))]])"

definition cholesky :: "jsnum list list \<Rightarrow> jsnum list list" where
  "cholesky A =
     (let n = length A;
          L = full n n (Num 0)
      in fold (\<lambda>i L. fold (chol_step A i) [0..<Suc i] L) [0..<n] L)"

text \<open>Forward substitution; \<open>solveL_step\<close> is the body of the loop over \<open>i\<close>.\<close>

definition solveL_step :: "jsnum list list \<Rightarrow> jsnum list \<Rightarrow> nat \<Rightarrow> jsnum list \<Rightarrow> jsnum list" where
  "solveL_step L b i x =
     (let sum = fold (\<lambda>j s. jsub s (jmul (rd (L ! i) j) (rd x j))) [0..<i] (rd b i)
      in x[i := jdiv sum (rd (L ! i) i)])"

definition solveL :: "jsnum list list \<Rightarrow> jsnum list \<Rightarrow> jsnum list" where
  "solveL L b =
     (let n = length L;
          x = replicate n (Num 0)
      in fold (solveL_step L b) [0..<n] x)"

text \<open>Backward substitution: \<open>i\<close> runs from \<open>n - 1\<close> down to \<open>0\<close>.\<close>

definition solveLT_step :: "jsnum list list \<Rightarrow> jsnum list \<Rightarrow> nat \<Rightarrow> jsnum list \<Rightarrow> jsnum list" where
  "solveLT_step L b i x =
     (let n = length L;
          sum = fold (\<lambda>j s. jsub s (jmul (rd (L ! j) i) (rd x j))) [Suc i..<n] (rd b i)
      in x[i := jdiv sum (rd (L ! i) i)])"

definition solveLT :: "jsnum list list \<Rightarrow> jsnum list \<Rightarrow> jsnum list" where
  "solveLT L b =
     (let n = length L;
          x = replicate n (Num 0)
      in fold (solveLT_step L b) (rev [0..<n]) x)"

definition choleskySolve :: "jsnum list list \<Rightarrow> jsnum list \<Rightarrow> jsnum list" where
  "choleskySolve L b = solveLT L (solveL L b)"

section \<open>kernels.ts\<close>

text \<open>
  The kernels in exact arithmetic, on real arguments. This reading is that of the
  program for a nonzero length scale and without rounding, underflow or overflow;
  at \<open>lengthScale = 0\<close> the program divides by zero. \<open>rbf_f64\<close> below is \<open>rbf\<close> in double
  precision.
\<close>

definition rbf :: "real \<Rightarrow> real \<Rightarrow> real \<Rightarrow> real \<Rightarrow> real" where
  "rbf x1 x2 lengthScale signalVariance =
     (let d = x1 - x2;
          l2 = lengthScale ^ 2
      in signalVariance * exp ((- (1 / 2)) * d * d / l2))"

definition matern12 :: "real \<Rightarrow> real \<Rightarrow> real \<Rightarrow> real \<Rightarrow> real" where
  "matern12 x1 x2 lengthScale signalVariance =
     (let r = \<bar>x1 - x2\<bar> / lengthScale
      in signalVariance * exp (- r))"

definition matern32 :: "real \<Rightarrow> real \<Rightarrow> real \<Rightarrow> real \<Rightarrow> real" where
  "matern32 x1 x2 lengthScale signalVariance =
     (let r = \<bar>x1 - x2\<bar> / lengthScale;
          sqrt3r = sqrt 3 * r
      in signalVariance * (1 + sqrt3r) * exp (- sqrt3r))"

definition matern52 :: "real \<Rightarrow> real \<Rightarrow> real \<Rightarrow> real \<Rightarrow> real" where
  "matern52 x1 x2 lengthScale signalVariance =
     (let r = \<bar>x1 - x2\<bar> / lengthScale;
          sqrt5r = sqrt 5 * r
      in signalVariance * (1 + sqrt5r + (5 * r * r) / 3) * exp (- sqrt5r))"

text \<open>The own properties of the object \<open>KERNEL_FNS\<close>.\<close>

definition KERNEL_FNS :: "(string \<times> (real \<Rightarrow> real \<Rightarrow> real \<Rightarrow> real \<Rightarrow> real)) list" where
  "KERNEL_FNS =
     [(''rbf'', rbf), (''matern12'', matern12), (''matern32'', matern32), (''matern52'', matern52)]"

text \<open>
  \<open>KERNEL_FNS\<close> is an object literal, so the read \<open>KERNEL_FNS[kernelName]\<close> finds
  the properties it inherits from \<open>Object.prototype\<close> as well as its own four. What
  the read returns is classified by what the call
  \<open>kernelFn(xi, xj, lengthScale, signalVariance)\<close> (receiver \<open>undefined\<close>) does with
  it:
  \<^item> \<open>NumFn k\<close>: the call returns a value that every later use reads as the number
    \<open>k xi xj lengthScale signalVariance\<close>;
  \<^item> \<open>StrFn\<close>: the call returns a non-numeric string, which every later use reads as
    \<open>NaN\<close>;
  \<^item> \<open>BadFn\<close>: the call throws a \<open>TypeError\<close> (the value is not callable, or it
    converts its receiver to an object).
\<close>

datatype kernel_value = NumFn "real \<Rightarrow> real \<Rightarrow> real \<Rightarrow> real \<Rightarrow> real" | StrFn | BadFn

text \<open>
  The properties of \<open>Object.prototype\<close>: \<open>constructor\<close> is \<open>Object\<close>, and
  \<open>Object(xi, ...)\<close> is the number \<open>xi\<close> wrapped; \<open>isPrototypeOf(xi)\<close> is \<open>false\<close>,
  read as \<open>0\<close>, for a primitive argument; \<open>toString\<close> returns
  \<open>"[object Undefined]"\<close>; \<open>__proto__\<close> is the prototype object itself, not a
  function; the others convert the receiver \<open>undefined\<close> to an object and throw.
\<close>

definition Object_prototype :: "(string \<times> kernel_value) list" where
  "Object_prototype =
     [(''constructor'', NumFn (\<lambda>x1 x2 l s. x1)),
      (''isPrototypeOf'', NumFn (\<lambda>x1 x2 l s. 0)),
      (''toString'', StrFn),
      (''toLocaleString'', BadFn),
      (''valueOf'', BadFn),
      (''hasOwnProperty'', BadFn),
      (''propertyIsEnumerable'', BadFn),
      (''__defineGetter__'', BadFn),
      (''__defineSetter__'', BadFn),
      (''__lookupGetter__'', BadFn),
      (''__lookupSetter__'', BadFn),
      (''__proto__'', BadFn)]"

text \<open>\<open>KERNEL_FNS[kernelName] || rbf\<close>: every value the read can find is truthy.\<close>

definition kernelFn_of :: "string \<Rightarrow> kernel_value" where
  "kernelFn_of kernelName =
     (case map_of KERNEL_FNS kernelName of
        Some k \<Rightarrow> NumFn k
      | None \<Rightarrow>
          (case map_of Object_prototype kernelName of
             Some v \<Rightarrow> v
           | None \<Rightarrow> NumFn rbf))"

definition call_kernel :: "kernel_value \<Rightarrow> real \<Rightarrow> real \<Rightarrow> real \<Rightarrow> real \<Rightarrow> js_error + jsnum" where
  "call_kernel kernelFn xi xj lengthScale signalVariance =
     (case kernelFn of
        NumFn k \<Rightarrow> Inr (Num (k xi xj lengthScale signalVariance))
      | StrFn \<Rightarrow> Inr NaN
      | BadFn \<Rightarrow> Inl TypeError)"

section \<open>gp.ts\<close>

record ObservationPoint =
  obs_x :: real
  obs_y :: real

record GPParams =
  kernel :: "string option"
  lengthScale :: real
  signalVariance :: real
  noiseLevel :: real

record PosteriorResult =
  mean :: "jsnum list"
  variance :: "jsnum list"

text \<open>\<open>xs.map(f)\<close> for an \<open>f\<close> that can throw: the first exception ends the map.\<close>

fun mapE :: "('a \<Rightarrow> js_error + 'b) \<Rightarrow> 'a list \<Rightarrow> js_error + 'b list" where
  "mapE f [] = Inr []"
| "mapE f (x # xs) =
     (case f x of
        Inl e \<Rightarrow> Inl e
      | Inr v \<Rightarrow> (case mapE f xs of Inl e \<Rightarrow> Inl e | Inr vs \<Rightarrow> Inr (v # vs)))"

definition kernelMatrix ::
  "real list \<Rightarrow> real list \<Rightarrow> real \<Rightarrow> real \<Rightarrow> string \<Rightarrow> js_error + jsnum list list" where
  "kernelMatrix x1 x2 lengthScale' signalVariance' kernelName =
     (let kernelFn = kernelFn_of kernelName
      in mapE (\<lambda>xi. mapE (\<lambda>xj. call_kernel kernelFn xi xj lengthScale' signalVariance') x2) x1)"

text \<open>\<open>params.kernel || 'rbf'\<close>: an absent field and the empty string are falsy.\<close>

definition kernelName_of :: "GPParams \<Rightarrow> string" where
  "kernelName_of params =
     (case kernel params of
        None \<Rightarrow> ''rbf''
      | Some s \<Rightarrow> if s = [] then ''rbf'' else s)"

text \<open>
  The body of the \<open>reduce\<close> over the solved rows in \<open>computePosterior\<close>: it pushes one
  mean and one variance onto the accumulator.
\<close>

definition posterior_push :: "jsnum list \<Rightarrow> jsnum \<Rightarrow> jsnum list \<Rightarrow> PosteriorResult \<Rightarrow> PosteriorResult" where
  "posterior_push alpha k_ss v acc =
     (let mu = fold (\<lambda>j s. jadd s (jmul (v ! j) (rd alpha j))) [0..<length v] (Num 0);
          vTv = fold (\<lambda>vi s. jadd s (jmul vi vi)) v (Num 0)
      in \<lparr>mean = mean acc @ [mu],
          variance = variance acc @ [jmax (jsub k_ss vTv) (Num (1 / 10 ^ 10))]\<rparr>)"

definition computePosterior ::
  "ObservationPoint list \<Rightarrow> real list \<Rightarrow> GPParams \<Rightarrow> js_error + PosteriorResult" where
  "computePosterior points testX params =
     (let n = length points;
          m = length testX;
          kernelName = kernelName_of params
      in if n = 0
         then Inr \<lparr>mean = replicate m (Num 0),
                   variance = replicate m (Num (signalVariance params))\<rparr>
         else
           let X = map obs_x points;
               y = map (\<lambda>p. Num (obs_y p)) points
           in case kernelMatrix X X (lengthScale params) (signalVariance params) kernelName of
                Inl e \<Rightarrow> Inl e
              | Inr K_XX0 \<Rightarrow>
                  let K_XX = addDiag K_XX0 (Num ((noiseLevel params) ^ 2 + 1 / 10 ^ 8));
                      L = cholesky K_XX
                  in case kernelMatrix testX X (lengthScale params) (signalVariance params)
                            kernelName of
                       Inl e \<Rightarrow> Inl e
                     | Inr K_Xs \<Rightarrow>
                         let alpha = solveL L y;
                             k_ss = Num (signalVariance params)
                         in Inr (fold (posterior_push alpha k_ss) (map (solveL L) K_Xs)
                                   \<lparr>mean = [], variance = []\<rparr>))"

text \<open>
  \<open>sampleFromGP\<close>, posterior branch, up to the posterior mean \<open>mu\<close>. The random draws
  and the covariance product that follow are not modelled.
\<close>

definition sampleFromGP_mu ::
  "ObservationPoint list \<Rightarrow> real list \<Rightarrow> GPParams \<Rightarrow> js_error + jsnum list" where
  "sampleFromGP_mu points sampleX params =
     (let kernelName = kernelName_of params;
          X = map obs_x points;
          y = map (\<lambda>p. Num (obs_y p)) points
      in case kernelMatrix X X (lengthScale params) (signalVariance params) kernelName of
           Inl e \<Rightarrow> Inl e
         | Inr K_XX0 \<Rightarrow>
             let K_XX = addDiag K_XX0 (Num ((noiseLevel params) ^ 2 + 1 / 10 ^ 8));
                 L_XX = cholesky K_XX
             in case kernelMatrix sampleX X (lengthScale params) (signalVariance params)
                       kernelName of
                  Inl e \<Rightarrow> Inl e
                | Inr K_Xs \<Rightarrow>
                    (case kernelMatrix sampleX sampleX (lengthScale params)
                            (signalVariance params) kernelName of
                       Inl e \<Rightarrow> Inl e
                     | Inr K_ss \<Rightarrow>
                         let alpha = choleskySolve L_XX y;
                             mu = matVec K_Xs alpha
                         in Inr mu))"

section \<open>Double precision\<close>

text \<open>
  A double is \<open>Fin r\<close> for a real \<open>r\<close> that binary64 represents, an infinity, or
  \<open>NaN\<close>. The two zeros are one value \<open>Fin 0\<close>: they are equal in the program, and the
  sign of a zero matters to a division by it only.
\<close>

datatype dbl = Fin real | PosInf | NegInf | DNaN

text \<open>
  Rounding to nearest, ties to even. \<open>rne\<close> rounds a real to an integer. \<open>rnd\<close>
  rounds a real to a double: the unit in the last place is \<open>2\<^sup>e\<^sup>-\<^sup>5\<^sup>2\<close> for the binary
  exponent \<open>e\<close> of the value, not below \<open>-1022\<close> (so \<open>2\<^sup>-\<^sup>1\<^sup>0\<^sup>7\<^sup>4\<close> in the subnormal
  range, where small values round to zero), and a result of magnitude \<open>2\<^sup>1\<^sup>0\<^sup>2\<^sup>4\<close> or
  more is an infinity.
\<close>

definition rne :: "real \<Rightarrow> int" where
  "rne r =
     (let f = \<lfloor>r\<rfloor>;
          d = r - of_int f
      in if d < 1 / 2 then f
         else if 1 / 2 < d then f + 1
         else if even f then f else f + 1)"

definition rnd :: "real \<Rightarrow> dbl" where
  "rnd x =
     (if x = 0 then Fin 0
      else
        let e = max \<lfloor>log 2 \<bar>x\<bar>\<rfloor> (- 1022);
            u = 2 powr (of_int e - 52);
            r = of_int (rne (x / u)) * u
        in if 2 powr 1024 \<le> \<bar>r\<bar> then (if 0 < x then PosInf else NegInf) else Fin r)"

text \<open>
  The operations \<open>-x\<close>, \<open>+\<close>, \<open>-\<close>, \<open>*\<close> and \<open>/\<close> of IEEE 754: the exact result
  rounded, and the standard's cases for infinities and \<open>NaN\<close>. A zero divisor is
  taken as \<open>+0\<close>, which it is at the divisions read here: \<open>n - 1\<close> in \<open>linspace\<close>
  and the square \<open>lengthScale ** 2\<close> in \<open>rbf\<close>.
\<close>

fun dneg :: "dbl \<Rightarrow> dbl" where
  "dneg (Fin a) = Fin (- a)"
| "dneg PosInf = NegInf"
| "dneg NegInf = PosInf"
| "dneg DNaN = DNaN"

fun dadd :: "dbl \<Rightarrow> dbl \<Rightarrow> dbl" where
  "dadd (Fin a) (Fin b) = rnd (a + b)"
| "dadd DNaN _ = DNaN"
| "dadd _ DNaN = DNaN"
| "dadd PosInf NegInf = DNaN"
| "dadd NegInf PosInf = DNaN"
| "dadd PosInf _ = PosInf"
| "dadd _ PosInf = PosInf"
| "dadd NegInf _ = NegInf"
| "dadd _ NegInf = NegInf"

definition dsub :: "dbl \<Rightarrow> dbl \<Rightarrow> dbl" where
  "dsub a b = dadd a (dneg b)"

fun dmul :: "dbl \<Rightarrow> dbl \<Rightarrow> dbl" where
  "dmul (Fin a) (Fin b) = rnd (a * b)"
| "dmul DNaN _ = DNaN"
| "dmul _ DNaN = DNaN"
| "dmul (Fin a) PosInf = (if a = 0 then DNaN else if 0 < a then PosInf else NegInf)"
| "dmul (Fin a) NegInf = (if a = 0 then DNaN else if 0 < a then NegInf else PosInf)"
| "dmul PosInf (Fin b) = (if b = 0 then DNaN else if 0 < b then PosInf else NegInf)"
| "dmul NegInf (Fin b) = (if b = 0 then DNaN else if 0 < b then NegInf else PosInf)"
| "dmul PosInf PosInf = PosInf"
| "dmul NegInf NegInf = PosInf"
| "dmul PosInf NegInf = NegInf"
| "dmul NegInf PosInf = NegInf"

fun ddiv :: "dbl \<Rightarrow> dbl \<Rightarrow> dbl" where
  "ddiv (Fin a) (Fin b) =
     (if b = 0 then (if a = 0 then DNaN else if 0 < a then PosInf else NegInf)
      else rnd (a / b))"
| "ddiv DNaN _ = DNaN"
| "ddiv _ DNaN = DNaN"
| "ddiv (Fin a) _ = Fin 0"
| "ddiv PosInf (Fin b) = (if 0 \<le> b then PosInf else NegInf)"
| "ddiv NegInf (Fin b) = (if 0 \<le> b then NegInf else PosInf)"
| "ddiv _ _ = DNaN"




text \<open>
  \<open>linspace\<close> in double precision: \<open>step\<close>, the callback \<open>(_, i) => start + i * step\<close>,
  and the array. The arguments are doubles; \<open>n\<close> and \<open>i\<close> are integers below
  \<open>2\<^sup>3\<^sup>2\<close>, which are doubles.
\<close>

definition linspace_f64_step :: "real \<Rightarrow> real \<Rightarrow> nat \<Rightarrow> dbl" where
  "linspace_f64_step start end' n = ddiv (dsub (Fin end') (Fin start)) (dsub (Fin (real n)) (Fin 1))"

definition linspace_f64_at :: "real \<Rightarrow> real \<Rightarrow> nat \<Rightarrow> nat \<Rightarrow> dbl" where
  "linspace_f64_at start end' n i =
     dadd (Fin start) (dmul (Fin (real i)) (linspace_f64_step start end' n))"

definition linspace_f64 :: "real \<Rightarrow> real \<Rightarrow> nat \<Rightarrow> js_error + dbl list" where
  "linspace_f64 start end' n =
     (if 2 ^ 32 \<le> n then Inl RangeError
      else Inr (map (linspace_f64_at start end' n) [0..<n]))"

section \<open>Exact-arithmetic reading of the factorization\<close>

text \<open>
  The value that \<open>cholesky\<close> assigns to \<open>L[i][j]\<close>, written over the reals: the
  diagonal case and the case below the diagonal, with the sum of the innermost loop.
\<close>

definition chol_rec :: "real list list \<Rightarrow> real list list \<Rightarrow> nat \<Rightarrow> nat \<Rightarrow> real" where
  "chol_rec A L i j =
     (if i = j
      then sqrt (max (A ! i ! i - (\<Sum>k<j. L ! i ! k * L ! j ! k)) (1 / 10 ^ 10))
      else (A ! i ! j - (\<Sum>k<j. L ! i ! k * L ! j ! k)) / L ! j ! j)"

text \<open>
  The loop invariant of \<open>cholesky\<close>. At the head of the iteration \<open>(i, j)\<close> the
  entries already assigned are those of the rows before \<open>i\<close>, up to the diagonal,
  and those of row \<open>i\<close> before column \<open>j\<close>; each holds the value of the recurrence,
  and every other entry is still the \<open>0\<close> that \<open>full\<close> put there.
\<close>

definition chol_done :: "nat \<Rightarrow> nat \<Rightarrow> nat \<Rightarrow> nat \<Rightarrow> bool" where
  "chol_done i j r c \<longleftrightarrow> (r < i \<and> c \<le> r) \<or> (r = i \<and> c < j)"

definition chol_inv :: "real list list \<Rightarrow> nat \<Rightarrow> real list list \<Rightarrow> nat \<Rightarrow> nat \<Rightarrow> bool" where
  "chol_inv A n L i j \<longleftrightarrow>
     length L = n \<and> (\<forall>r<n. length (L ! r) = n) \<and>
     (\<forall>r<n. \<forall>c<n. if chol_done i j r c then L ! r ! c = chol_rec A L r c else L ! r ! c = 0)"

section \<open>Statements about the program\<close>

text \<open>The product \<open>L\<cdot>L\<^sup>T\<close> of a square matrix with its transpose, over the reals.\<close>

definition mat_LLt :: "real list list \<Rightarrow> real list list" where
  "mat_LLt L =
     (let n = length L
      in map (\<lambda>i. map (\<lambda>j. \<Sum>k<n. L ! i ! k * L ! j ! k) [0..<n]) [0..<n])"

text \<open>The dot product of two vectors, in the arithmetic of the model.\<close>

definition dot :: "jsnum list \<Rightarrow> jsnum list \<Rightarrow> jsnum" where
  "dot u v = foldl jadd (Num 0) (map2 jmul u v)"

section \<open>Arithmetic on finite numbers\<close>

lemma rd_Num: "i < length xs \<Longrightarrow> rd (map Num xs) i = Num (xs ! i)"
  by (simp add: rd_def)

lemma fold_jadd_Num:
  "(\<And>j. j \<in> set js \<Longrightarrow> g j = Num (f j)) \<Longrightarrow>
   fold (\<lambda>j s. jadd s (g j)) js (Num c) = Num (c + sum_list (map f js))"
  by (induction js arbitrary: c) (simp_all add: algebra_simps)

lemma sum_list_upt: "sum_list (map f [a..<b]) = sum f {a..<b}"
  by (simp add: interv_sum_list_conv_sum_set_nat)

section \<open>The loops of \<open>cholesky\<close>\<close>

text \<open>
  On a matrix of finite numbers every step of \<open>cholesky\<close> stores a finite number,
  the one the recurrence gives, and keeps the invariant.
\<close>

lemma chol_sum_Num:
  assumes "length L = n" "\<forall>r<n. length (L ! r) = n" "i < n" "j \<le> i"
  shows "chol_sum (map (map Num) L) i j = Num (\<Sum>k<j. L ! i ! k * L ! j ! k)"
proof -
  have "fold (\<lambda>k s. jadd s (jmul (rd (map (map Num) L ! i) k) (rd (map (map Num) L ! j) k))) [0..<j] (Num 0)
          = Num (0 + sum_list (map (\<lambda>k. L ! i ! k * L ! j ! k) [0..<j]))"
    using assms by (intro fold_jadd_Num) (simp add: rd_def)
  then show ?thesis
    by (simp add: chol_sum_def sum_list_upt atLeast0LessThan)
qed

lemma chol_rec_pos: "0 < chol_rec A L i i"
  by (simp add: chol_rec_def max_def)

lemma jsqrt_floor: "0 < e \<Longrightarrow> jsqrt (jmax (jsub (Num a) (Num s)) (Num e)) = Num (sqrt (max (a - s) e))"
  by (simp add: max_def)

lemma chol_step_Num:
  assumes L: "length L = n" "\<forall>r<n. length (L ! r) = n"
    and A: "length A = n" "\<forall>r<n. length (A ! r) = n"
    and ij: "i < n" "j \<le> i" and nz: "j < i \<longrightarrow> L ! j ! j \<noteq> 0"
  shows "chol_step (map (map Num) A) i j (map (map Num) L)
           = map (map Num) (L[i := (L ! i)[j := chol_rec A L i j]])"
proof -
  have jn: "j < n" using ij by simp
  have s: "chol_sum (map (map Num) L) i j = Num (\<Sum>k<j. L ! i ! k * L ! j ! k)"
    using L ij by (rule chol_sum_Num)
  have a: "rd (map (map Num) A ! i) j = Num (A ! i ! j)"
    using A ij jn by (simp add: rd_def)
  have l: "rd (map (map Num) L ! j) j = Num (L ! j ! j)"
    using L jn by (simp add: rd_def)
  have v: "(if i = j
            then jsqrt (jmax (jsub (rd (map (map Num) A ! i) i) (chol_sum (map (map Num) L) i j)) (Num (1 / 10 ^ 10)))
            else jdiv (jsub (rd (map (map Num) A ! i) j) (chol_sum (map (map Num) L) i j)) (rd (map (map Num) L ! j) j))
         = Num (chol_rec A L i j)"
  proof (cases "i = j")
    case True
    then show ?thesis using a s by (simp add: chol_rec_def jsqrt_floor del: jsqrt.simps jmax.simps jsub.simps)
  next
    case False
    then have "L ! j ! j \<noteq> 0" using nz ij by simp
    then show ?thesis using False a s l by (simp add: chol_rec_def)
  qed
  have "chol_step (map (map Num) A) i j (map (map Num) L)
          = (map (map Num) L)[i := (map (map Num) L ! i)[j := Num (chol_rec A L i j)]]"
    unfolding chol_step_def Let_def v ..
  also have "\<dots> = map (map Num) (L[i := (L ! i)[j := chol_rec A L i j]])"
    using L ij by (simp add: map_update)
  finally show ?thesis .
qed

lemma nth_upd2:
  "i < length L \<Longrightarrow> j < length (L ! i) \<Longrightarrow> r < length L \<Longrightarrow>
   (L[i := (L ! i)[j := v]]) ! r ! c = (if r = i \<and> c = j then v else L ! r ! c)"
  by (cases "r = i") auto

lemma chol_rec_cong:
  assumes "\<And>k. k < c \<Longrightarrow> L' ! r ! k = L ! r ! k"
    and "\<And>k. k < c \<Longrightarrow> L' ! c ! k = L ! c ! k"
    and "r \<noteq> c \<Longrightarrow> L' ! c ! c = L ! c ! c"
  shows "chol_rec A L' r c = chol_rec A L r c"
proof -
  have "(\<Sum>k<c. L' ! r ! k * L' ! c ! k) = (\<Sum>k<c. L ! r ! k * L ! c ! k)"
    using assms(1,2) by (intro sum.cong) auto
  then show ?thesis using assms(3) by (cases "r = c") (simp_all add: chol_rec_def)
qed

lemma chol_inv_step:
  assumes inv: "chol_inv A n L i j" and ij: "i < n" "j \<le> i"
  shows "chol_inv A n (L[i := (L ! i)[j := chol_rec A L i j]]) i (Suc j)"
proof -
  let ?L = "L[i := (L ! i)[j := chol_rec A L i j]]"
  have len: "length L = n" and rows: "\<forall>r<n. length (L ! r) = n"
    using inv by (simp_all add: chol_inv_def)
  have ent: "\<And>r c. r < n \<Longrightarrow> c < n \<Longrightarrow>
      (if chol_done i j r c then L ! r ! c = chol_rec A L r c else L ! r ! c = 0)"
    using inv by (simp add: chol_inv_def)
  have jn: "j < n" using ij by simp
  have upd: "?L ! r ! c = (if r = i \<and> c = j then chol_rec A L i j else L ! r ! c)" if "r < n" for r c
    using len rows ij jn that by (intro nth_upd2) simp_all
  have len': "length ?L = n" using len by simp
  have rows': "\<forall>r<n. length (?L ! r) = n"
    using len rows ij by (auto simp: nth_list_update)
  have ent': "(if chol_done i (Suc j) r c then ?L ! r ! c = chol_rec A ?L r c else ?L ! r ! c = 0)"
    if rc: "r < n" "c < n" for r c
  proof (cases "chol_done i (Suc j) r c")
    case True
    then have cases: "(r < i \<and> c \<le> r) \<or> (r = i \<and> c \<le> j)"
      by (auto simp: chol_done_def)
    have 1: "?L ! r ! k = L ! r ! k" if "k < c" for k
      using cases that rc by (auto simp: upd)
    have 2: "?L ! c ! k = L ! c ! k" if "k < c" for k
      using cases that rc ij by (auto simp: upd)
    have 3: "?L ! c ! c = L ! c ! c" if "r \<noteq> c"
      using cases that rc ij by (auto simp: upd)
    have eq: "chol_rec A ?L r c = chol_rec A L r c"
      using 1 2 3 by (rule chol_rec_cong)
    show ?thesis
    proof (cases "r = i \<and> c = j")
      case True
      then show ?thesis using eq rc \<open>chol_done i (Suc j) r c\<close> by (simp add: upd)
    next
      case False
      then have "chol_done i j r c" using cases by (auto simp: chol_done_def)
      then have "L ! r ! c = chol_rec A L r c" using ent[OF rc] by simp
      then show ?thesis using eq rc False \<open>chol_done i (Suc j) r c\<close> by (simp add: upd)
    qed
  next
    case False
    then have nd: "\<not> chol_done i j r c" and ne: "\<not> (r = i \<and> c = j)"
      by (auto simp: chol_done_def)
    then have "L ! r ! c = 0" using ent[OF rc] by simp
    moreover have "?L ! r ! c = L ! r ! c" using ne rc by (auto simp: upd)
    ultimately show ?thesis using False by simp
  qed
  show ?thesis
    unfolding chol_inv_def using len' rows' ent' by blast
qed

lemma chol_inv_diag:
  assumes "chol_inv A n L i j" "r < i" "r < n"
  shows "0 < L ! r ! r"
proof -
  have "chol_done i j r r" using assms(2) by (simp add: chol_done_def)
  then have "L ! r ! r = chol_rec A L r r"
    using assms by (simp add: chol_inv_def)
  then show ?thesis by (simp add: chol_rec_pos)
qed

lemma chol_inner_loop:
  assumes A: "length A = n" "\<forall>r<n. length (A ! r) = n" and i: "i < n"
    and inv: "chol_inv A n L i 0"
  shows "k \<le> Suc i \<Longrightarrow>
         \<exists>L'. fold (chol_step (map (map Num) A) i) [0..<k] (map (map Num) L) = map (map Num) L' \<and>
              chol_inv A n L' i k"
proof (induction k)
  case 0
  then show ?case using inv by auto
next
  case (Suc k)
  then obtain L' where L': "fold (chol_step (map (map Num) A) i) [0..<k] (map (map Num) L) = map (map Num) L'"
      "chol_inv A n L' i k"
    by auto
  have ki: "k \<le> i" using Suc.prems by simp
  have len: "length L' = n" and rows: "\<forall>r<n. length (L' ! r) = n"
    using L'(2) by (simp_all add: chol_inv_def)
  have nz: "k < i \<longrightarrow> L' ! k ! k \<noteq> 0"
    using chol_inv_diag[OF L'(2), of k] i by auto
  have "chol_step (map (map Num) A) i k (map (map Num) L')
          = map (map Num) (L'[i := (L' ! i)[k := chol_rec A L' i k]])"
    using len rows A i ki nz by (rule chol_step_Num)
  moreover have "chol_inv A n (L'[i := (L' ! i)[k := chol_rec A L' i k]]) i (Suc k)"
    using L'(2) i ki by (rule chol_inv_step)
  ultimately show ?case using L'(1) by auto
qed

lemma chol_inv_next: "chol_inv A n L i (Suc i) \<Longrightarrow> chol_inv A n L (Suc i) 0"
proof -
  have "chol_done i (Suc i) = chol_done (Suc i) 0"
    by (auto simp: chol_done_def fun_eq_iff)
  then show "chol_inv A n L i (Suc i) \<Longrightarrow> chol_inv A n L (Suc i) 0"
    by (simp add: chol_inv_def)
qed

lemma chol_outer_loop:
  assumes A: "length A = n" "\<forall>r<n. length (A ! r) = n"
  shows "k \<le> n \<Longrightarrow>
         \<exists>L. fold (\<lambda>i L. fold (chol_step (map (map Num) A) i) [0..<Suc i] L) [0..<k] (full n n (Num 0))
                = map (map Num) L \<and> chol_inv A n L k 0"
proof (induction k)
  case 0
  have "full n n (Num 0) = map (map Num) (replicate n (replicate n 0))"
    by (simp add: full_def)
  moreover have "chol_inv A n (replicate n (replicate n 0)) 0 0"
    by (simp add: chol_inv_def chol_done_def)
  ultimately show ?case by (simp del: map_replicate) blast
next
  case (Suc k)
  then obtain L where L: "fold (\<lambda>i L. fold (chol_step (map (map Num) A) i) [0..<Suc i] L) [0..<k] (full n n (Num 0))
                = map (map Num) L" "chol_inv A n L k 0"
    by auto
  have kn: "k < n" using Suc.prems by simp
  obtain L' where L': "fold (chol_step (map (map Num) A) k) [0..<Suc k] (map (map Num) L) = map (map Num) L'"
      "chol_inv A n L' k (Suc k)"
    using chol_inner_loop[OF A kn L(2), of "Suc k"] by auto
  have "chol_inv A n L' (Suc k) 0" using L'(2) by (rule chol_inv_next)
  moreover have "fold (\<lambda>i L. fold (chol_step (map (map Num) A) i) [0..<Suc i] L) [0..<Suc k] (full n n (Num 0))
                = map (map Num) L'"
    using L(1) L'(1) by simp
  ultimately show ?case by blast
qed

lemma cholesky_Num:
  assumes A: "length A = n" "\<forall>r<n. length (A ! r) = n"
  shows "\<exists>L. cholesky (map (map Num) A) = map (map Num) L \<and> chol_inv A n L n 0"
  using chol_outer_loop[OF A, of n] A(1) by (simp add: cholesky_def)

section \<open>The loops of \<open>solveL\<close> and \<open>solveLT\<close>\<close>

text \<open>
  With a nonzero diagonal the forward solve returns finite numbers \<open>x\<close> with
  \<open>L x = b\<close>, read on the lower triangle of \<open>L\<close>, and the backward solve returns
  finite numbers with \<open>L\<^sup>T x = b\<close>.
\<close>

lemma fold_jsub_Num:
  "(\<And>j. j \<in> set js \<Longrightarrow> g j = Num (f j)) \<Longrightarrow>
   fold (\<lambda>j s. jsub s (g j)) js (Num c) = Num (c - sum_list (map f js))"
  by (induction js arbitrary: c) (simp_all add: algebra_simps)

lemma solveL_step_Num:
  assumes "i < length L" "i < length (L ! i)" "i < length xr" "i < length br" "L ! i ! i \<noteq> 0"
  shows "solveL_step (map (map Num) L) (map Num br) i (map Num xr)
           = map Num (xr[i := (br ! i - (\<Sum>j<i. L ! i ! j * xr ! j)) / L ! i ! i])"
proof -
  have "fold (\<lambda>j s. jsub s (jmul (rd (map (map Num) L ! i) j) (rd (map Num xr) j))) [0..<i] (Num (br ! i))
          = Num (br ! i - sum_list (map (\<lambda>j. L ! i ! j * xr ! j) [0..<i]))"
    using assms by (intro fold_jsub_Num) (simp add: rd_def)
  then show ?thesis
    using assms by (simp add: solveL_step_def rd_Num map_update sum_list_upt atLeast0LessThan)
qed

lemma solveL_loop:
  assumes "length L = n" "\<forall>i<n. length (L ! i) = n" "\<forall>i<n. L ! i ! i \<noteq> 0" "length b = n"
  shows "k \<le> n \<Longrightarrow> \<exists>x. length x = n \<and>
            fold (solveL_step (map (map Num) L) (map Num b)) [0..<k] (replicate n (Num 0)) = map Num x \<and>
            (\<forall>i<k. (\<Sum>j<Suc i. L ! i ! j * x ! j) = b ! i)"
proof (induction k)
  case 0
  have "replicate n (Num 0) = map Num (replicate n 0)" by simp
  then show ?case by (intro exI[of _ "replicate n 0"]) simp
next
  case (Suc k)
  then obtain x where x: "length x = n"
      "fold (solveL_step (map (map Num) L) (map Num b)) [0..<k] (replicate n (Num 0)) = map Num x"
      "\<forall>i<k. (\<Sum>j<Suc i. L ! i ! j * x ! j) = b ! i"
    by auto
  let ?v = "(b ! k - (\<Sum>j<k. L ! k ! j * x ! j)) / L ! k ! k"
  let ?x = "x[k := ?v]"
  have kn: "k < n" using Suc.prems by simp
  have step: "solveL_step (map (map Num) L) (map Num b) k (map Num x) = map Num ?x"
    using assms x(1) kn by (intro solveL_step_Num) simp_all
  have same: "\<And>j. j < k \<Longrightarrow> ?x ! j = x ! j" by simp
  have old: "(\<Sum>j<Suc i. L ! i ! j * ?x ! j) = b ! i" if "i < k" for i
  proof -
    have "(\<Sum>j<Suc i. L ! i ! j * ?x ! j) = (\<Sum>j<Suc i. L ! i ! j * x ! j)"
      using that by (intro sum.cong) auto
    then show ?thesis using x(3) that by simp
  qed
  have new: "(\<Sum>j<Suc k. L ! k ! j * ?x ! j) = b ! k"
  proof -
    have "(\<Sum>j<k. L ! k ! j * ?x ! j) = (\<Sum>j<k. L ! k ! j * x ! j)"
      by (intro sum.cong) auto
    moreover have "?x ! k = ?v" using x(1) kn by simp
    moreover have "L ! k ! k \<noteq> 0" using assms(3) kn by simp
    ultimately show ?thesis by simp
  qed
  have "\<forall>i<Suc k. (\<Sum>j<Suc i. L ! i ! j * ?x ! j) = b ! i"
    using old new by (auto simp: less_Suc_eq)
  moreover have "fold (solveL_step (map (map Num) L) (map Num b)) [0..<Suc k] (replicate n (Num 0)) = map Num ?x"
    using x(2) step by simp
  moreover have "length ?x = n" using x(1) by simp
  ultimately show ?case by blast
qed

lemma solveL_solves:
  assumes "length L = n" "\<forall>i<n. length (L ! i) = n" "\<forall>i<n. L ! i ! i \<noteq> 0" "length b = n"
  shows "\<exists>x. length x = n \<and> solveL (map (map Num) L) (map Num b) = map Num x \<and>
            (\<forall>i<n. (\<Sum>j<Suc i. L ! i ! j * x ! j) = b ! i)"
  using solveL_loop[OF assms, of n] assms(1) by (simp add: solveL_def)

lemma solveLT_step_Num:
  assumes "length L = n" "\<forall>i<n. length (L ! i) = n" "i < n" "length xr = n" "length br = n"
    "L ! i ! i \<noteq> 0"
  shows "solveLT_step (map (map Num) L) (map Num br) i (map Num xr)
           = map Num (xr[i := (br ! i - (\<Sum>j = Suc i..<n. L ! j ! i * xr ! j)) / L ! i ! i])"
proof -
  have "fold (\<lambda>j s. jsub s (jmul (rd (map (map Num) L ! j) i) (rd (map Num xr) j))) [Suc i..<n] (Num (br ! i))
          = Num (br ! i - sum_list (map (\<lambda>j. L ! j ! i * xr ! j) [Suc i..<n]))"
    using assms by (intro fold_jsub_Num) (simp add: rd_def)
  then show ?thesis
    using assms by (simp add: solveLT_step_def rd_Num map_update sum_list_upt)
qed

lemma solveLT_loop:
  assumes "length L = n" "\<forall>i<n. length (L ! i) = n" "\<forall>i<n. L ! i ! i \<noteq> 0" "length b = n"
  shows "m \<le> n \<Longrightarrow> \<exists>x. length x = n \<and>
            fold (solveLT_step (map (map Num) L) (map Num b)) (rev [m..<n]) (replicate n (Num 0)) = map Num x \<and>
            (\<forall>i. m \<le> i \<and> i < n \<longrightarrow> (\<Sum>j = i..<n. L ! j ! i * x ! j) = b ! i)"
proof (induction m rule: inc_induct)
  case base
  have "replicate n (Num 0) = map Num (replicate n 0)" by simp
  then show ?case by (intro exI[of _ "replicate n 0"]) simp
next
  case (step k)
  from step.IH obtain x where x: "length x = n"
      "fold (solveLT_step (map (map Num) L) (map Num b)) (rev [Suc k..<n]) (replicate n (Num 0)) = map Num x"
      "\<forall>i. Suc k \<le> i \<and> i < n \<longrightarrow> (\<Sum>j = i..<n. L ! j ! i * x ! j) = b ! i"
    by blast
  let ?v = "(b ! k - (\<Sum>j = Suc k..<n. L ! j ! k * x ! j)) / L ! k ! k"
  let ?x = "x[k := ?v]"
  have kn: "k < n" using step.hyps by simp
  have st: "solveLT_step (map (map Num) L) (map Num b) k (map Num x) = map Num ?x"
    using assms x(1) kn by (intro solveLT_step_Num) simp_all
  have old: "(\<Sum>j = i..<n. L ! j ! i * ?x ! j) = b ! i" if "Suc k \<le> i" "i < n" for i
  proof -
    have "(\<Sum>j = i..<n. L ! j ! i * ?x ! j) = (\<Sum>j = i..<n. L ! j ! i * x ! j)"
      using that by (intro sum.cong) auto
    then show ?thesis using x(3) that by simp
  qed
  have new: "(\<Sum>j = k..<n. L ! j ! k * ?x ! j) = b ! k"
  proof -
    have "(\<Sum>j = Suc k..<n. L ! j ! k * ?x ! j) = (\<Sum>j = Suc k..<n. L ! j ! k * x ! j)"
      by (intro sum.cong) auto
    moreover have "?x ! k = ?v" using x(1) kn by simp
    moreover have "L ! k ! k \<noteq> 0" using assms(3) kn by simp
    moreover have "(\<Sum>j = k..<n. L ! j ! k * ?x ! j) = L ! k ! k * ?x ! k + (\<Sum>j = Suc k..<n. L ! j ! k * ?x ! j)"
      using kn by (simp add: sum.atLeast_Suc_lessThan)
    ultimately show ?thesis by simp
  qed
  have "(\<Sum>j = i..<n. L ! j ! i * ?x ! j) = b ! i" if "k \<le> i" "i < n" for i
  proof (cases "i = k")
    case True
    then show ?thesis using new by simp
  next
    case False
    then have "Suc k \<le> i" using that by simp
    then show ?thesis using old that by simp
  qed
  then have "\<forall>i. k \<le> i \<and> i < n \<longrightarrow> (\<Sum>j = i..<n. L ! j ! i * ?x ! j) = b ! i"
    by blast
  moreover have "fold (solveLT_step (map (map Num) L) (map Num b)) (rev [k..<n]) (replicate n (Num 0)) = map Num ?x"
    using x(2) st kn by (simp add: upt_conv_Cons)
  moreover have "length ?x = n" using x(1) by simp
  ultimately show ?case by blast
qed

lemma solveLT_solves:
  assumes "length L = n" "\<forall>i<n. length (L ! i) = n" "\<forall>i<n. L ! i ! i \<noteq> 0" "length b = n"
  shows "\<exists>x. length x = n \<and> solveLT (map (map Num) L) (map Num b) = map Num x \<and>
            (\<forall>i<n. (\<Sum>j = i..<n. L ! j ! i * x ! j) = b ! i)"
  using solveLT_loop[OF assms, of 0] assms(1) by (simp add: solveLT_def)

section \<open>Products and the two solves\<close>

lemma chol_inv_final:
  assumes "chol_inv A n L n 0"
  shows "length L = n" "\<forall>i<n. length (L ! i) = n"
    "\<forall>i<n. \<forall>j<n. i < j \<longrightarrow> L ! i ! j = 0"
    "\<forall>i<n. \<forall>j<n. j \<le> i \<longrightarrow> L ! i ! j = chol_rec A L i j"
  using assms by (auto simp: chol_inv_def chol_done_def)

lemma reduce_dot_Num:
  assumes "length row \<le> length x"
  shows "reduce_dot (map Num row) (map Num x) = Num (\<Sum>i<length row. row ! i * x ! i)"
proof -
  have "fold (\<lambda>i s. jadd s (jmul (map Num row ! i) (rd (map Num x) i))) [0..<length row] (Num 0)
          = Num (0 + sum_list (map (\<lambda>i. row ! i * x ! i) [0..<length row]))"
    using assms by (intro fold_jadd_Num) (simp add: rd_def)
  then show ?thesis
    by (simp add: reduce_dot_def sum_list_upt atLeast0LessThan)
qed

lemma LLt_apply:
  assumes low: "\<And>i j. i < n \<Longrightarrow> j < n \<Longrightarrow> i < j \<Longrightarrow> L ! i ! j = (0::real)"
    and fwd: "\<And>i. i < n \<Longrightarrow> (\<Sum>j<Suc i. L ! i ! j * z ! j) = b ! i"
    and bwd: "\<And>i. i < n \<Longrightarrow> (\<Sum>j = i..<n. L ! j ! i * x ! j) = z ! i"
    and i: "i < n"
  shows "(\<Sum>j<n. (\<Sum>k<n. L ! i ! k * L ! j ! k) * x ! j) = b ! i"
proof -
  have "(\<Sum>j<n. (\<Sum>k<n. L ! i ! k * L ! j ! k) * x ! j)
          = (\<Sum>j<n. \<Sum>k<n. L ! i ! k * (L ! j ! k * x ! j))"
    by (simp add: sum_distrib_right mult.assoc)
  also have "\<dots> = (\<Sum>k<n. \<Sum>j<n. L ! i ! k * (L ! j ! k * x ! j))"
    by (rule sum.swap)
  also have "\<dots> = (\<Sum>k<n. L ! i ! k * (\<Sum>j<n. L ! j ! k * x ! j))"
    by (simp add: sum_distrib_left)
  also have "\<dots> = (\<Sum>k<n. L ! i ! k * z ! k)"
  proof (intro sum.cong refl)
    fix k assume "k \<in> {..<n}"
    then have k: "k < n" by simp
    have "(\<Sum>j<n. L ! j ! k * x ! j) = (\<Sum>j = k..<n. L ! j ! k * x ! j)"
    proof (cases "k \<le> n")
      case True
      show ?thesis
      proof (intro sum.mono_neutral_right)
        show "\<forall>j\<in>{..<n} - {k..<n}. L ! j ! k * x ! j = 0"
          using low k by auto
      qed auto
    next
      case False
      then show ?thesis using k by simp
    qed
    then show "L ! i ! k * (\<Sum>j<n. L ! j ! k * x ! j) = L ! i ! k * z ! k"
      using bwd[OF k] by simp
  qed
  also have "\<dots> = (\<Sum>k<Suc i. L ! i ! k * z ! k)"
    using i low by (intro sum.mono_neutral_right) auto
  also have "\<dots> = b ! i" using fwd[OF i] .
  finally show ?thesis .
qed

lemma tri_adjoint:
  fixes L :: "real list list"
  assumes fwd: "\<And>i. i < n \<Longrightarrow> (\<Sum>j<Suc i. L ! i ! j * v ! j) = kr ! i"
    and bwd: "\<And>i. i < n \<Longrightarrow> (\<Sum>j = i..<n. L ! j ! i * w ! j) = a ! i"
  shows "(\<Sum>i<n. v ! i * a ! i) = (\<Sum>i<n. kr ! i * w ! i)"
proof -
  let ?f = "\<lambda>i j. if j \<le> i then L ! i ! j * v ! j * w ! i else 0"
  have 1: "kr ! i * w ! i = (\<Sum>j<n. ?f i j)" if "i < n" for i
  proof -
    have "kr ! i * w ! i = (\<Sum>j<Suc i. L ! i ! j * v ! j) * w ! i"
      by (simp only: fwd[OF that])
    also have "\<dots> = (\<Sum>j<Suc i. L ! i ! j * v ! j * w ! i)"
      by (rule sum_distrib_right)
    also have "\<dots> = (\<Sum>j<Suc i. ?f i j)"
      by (intro sum.cong) auto
    also have "\<dots> = (\<Sum>j<n. ?f i j)"
      using that by (intro sum.mono_neutral_left) auto
    finally show ?thesis .
  qed
  have 2: "v ! j * a ! j = (\<Sum>i<n. ?f i j)" if "j < n" for j
  proof -
    have "v ! j * a ! j = v ! j * (\<Sum>i = j..<n. L ! i ! j * w ! i)"
      by (simp only: bwd[OF that])
    also have "\<dots> = (\<Sum>i = j..<n. v ! j * (L ! i ! j * w ! i))"
      by (rule sum_distrib_left)
    also have "\<dots> = (\<Sum>i = j..<n. L ! i ! j * v ! j * w ! i)"
      by (intro sum.cong) auto
    also have "\<dots> = (\<Sum>i = j..<n. ?f i j)"
      by (intro sum.cong) auto
    also have "\<dots> = (\<Sum>i<n. ?f i j)"
      by (intro sum.mono_neutral_left) auto
    finally show ?thesis .
  qed
  have "(\<Sum>i<n. kr ! i * w ! i) = (\<Sum>i<n. \<Sum>j<n. ?f i j)"
    using 1 by (intro sum.cong) auto
  also have "\<dots> = (\<Sum>j<n. \<Sum>i<n. ?f i j)"
    by (rule sum.swap)
  also have "\<dots> = (\<Sum>j<n. v ! j * a ! j)"
    using 2 by (intro sum.cong) auto
  finally show ?thesis by simp
qed

section \<open>The kernel matrix and the posterior loop\<close>

lemma fold_posterior_push:
  "fold (posterior_push alpha k) vs acc =
     \<lparr>mean = mean acc @ map (\<lambda>v. reduce_dot v alpha) vs,
      variance = variance acc @
        map (\<lambda>v. jmax (jsub k (fold (\<lambda>vi s. jadd s (jmul vi vi)) v (Num 0))) (Num (1 / 10 ^ 10))) vs\<rparr>"
  by (induction vs arbitrary: acc) (simp_all add: posterior_push_def reduce_dot_def Let_def)

lemma mapE_Inr: "(\<And>x. x \<in> set xs \<Longrightarrow> f x = Inr (g x)) \<Longrightarrow> mapE f xs = Inr (map g xs)"
  by (induction xs) simp_all

lemma kernelMatrix_NumFn:
  assumes "kernelFn_of name = NumFn k"
  shows "kernelMatrix x1 x2 l s name = Inr (map (map Num) (map (\<lambda>xi. map (\<lambda>xj. k xi xj l s) x2) x1))"
proof -
  have "mapE (\<lambda>xj. call_kernel (NumFn k) xi xj l s) x2 = Inr (map (\<lambda>xj. Num (k xi xj l s)) x2)" for xi
    by (rule mapE_Inr) (simp add: call_kernel_def)
  then have "mapE (\<lambda>xi. mapE (\<lambda>xj. call_kernel (NumFn k) xi xj l s) x2) x1
               = Inr (map (\<lambda>xi. map (\<lambda>xj. Num (k xi xj l s)) x2) x1)"
    by (rule mapE_Inr)
  then show ?thesis using assms by (simp add: kernelMatrix_def comp_def)
qed

lemma kernelMatrix_StrFn:
  assumes "kernelFn_of name = StrFn"
  shows "kernelMatrix x1 x2 l s name = Inr (map (\<lambda>xi. replicate (length x2) NaN) x1)"
proof -
  have "mapE (\<lambda>xj. call_kernel StrFn xi xj l s) x2 = Inr (map (\<lambda>xj. NaN) x2)" for xi
    by (rule mapE_Inr) (simp add: call_kernel_def)
  then have "mapE (\<lambda>xi. mapE (\<lambda>xj. call_kernel StrFn xi xj l s) x2) x1
               = Inr (map (\<lambda>xi. map (\<lambda>xj. NaN) x2) x1)"
    by (rule mapE_Inr)
  then show ?thesis using assms by (simp add: kernelMatrix_def map_replicate_const)
qed

lemma kernelMatrix_BadFn:
  assumes "kernelFn_of name = BadFn" "x1 \<noteq> []" "x2 \<noteq> []"
  shows "kernelMatrix x1 x2 l s name = Inl TypeError"
proof -
  obtain a as where x1: "x1 = a # as" using assms(2) by (cases x1) auto
  obtain c cs where x2: "x2 = c # cs" using assms(3) by (cases x2) auto
  show ?thesis using assms(1) by (simp add: kernelMatrix_def x1 x2 call_kernel_def)
qed

lemma addDiag_Num:
  "addDiag (map (map Num) K) (Num c) =
     map (map Num) (map (\<lambda>i. map (\<lambda>j. if i = j then K ! i ! j + c else K ! i ! j) [0..<length (K ! i)])
                     [0..<length K])"
  by (simp add: addDiag_def)

section \<open>Lengths, and \<open>NaN\<close> rows\<close>

lemma length_chol_inner: "length (fold (chol_step A i) js L) = length L"
  by (induction js arbitrary: L) (simp_all add: chol_step_def Let_def)

lemma length_chol_outer: "length (fold (\<lambda>i L. fold (chol_step A i) [0..<Suc i] L) is L) = length L"
  by (induction "is" arbitrary: L) (simp_all add: length_chol_inner del: upt_Suc)

lemma length_cholesky: "length (cholesky A) = length A"
  by (simp add: cholesky_def Let_def length_chol_outer full_def del: upt_Suc)

lemma length_solveL_fold: "length (fold (solveL_step L b) js x) = length x"
  by (induction js arbitrary: x) (simp_all add: solveL_step_def Let_def)

lemma length_solveL: "length (solveL L b) = length L"
  by (simp add: solveL_def Let_def length_solveL_fold)

lemma fold_jadd_NaN: "fold (\<lambda>j s. jadd s (g j)) js NaN = NaN"
  by (induction js) simp_all

lemma fold_jsub_NaN: "fold (\<lambda>j s. jsub s (g j)) js NaN = NaN"
  by (induction js) simp_all

lemma solveL_NaN_loop:
  assumes "\<And>i. i < n \<Longrightarrow> rd b i = NaN"
  shows "k \<le> n \<Longrightarrow> fold (solveL_step L b) [0..<k] (replicate n (Num 0))
                      = map (\<lambda>i. if i < k then NaN else Num 0) [0..<n]"
proof (induction k)
  case 0
  then show ?case by (simp add: map_replicate_const)
next
  case (Suc k)
  then have kn: "k < n" by simp
  let ?x = "map (\<lambda>i. if i < k then NaN else Num 0) [0..<n]"
  have "solveL_step L b k ?x = ?x[k := NaN]"
    using assms[OF kn] by (simp add: solveL_step_def fold_jsub_NaN)
  also have "\<dots> = map (\<lambda>i. if i < Suc k then NaN else Num 0) [0..<n]"
    by (rule nth_equalityI) (auto simp: nth_list_update less_Suc_eq)
  finally show ?case using Suc kn by simp
qed

lemma solveL_NaN:
  assumes "\<And>i. i < length L \<Longrightarrow> rd b i = NaN"
  shows "solveL L b = replicate (length L) NaN"
proof -
  have "solveL L b = map (\<lambda>i. if i < length L then NaN else Num 0) [0..<length L]"
    using solveL_NaN_loop[of "length L" b "length L" L] assms by (simp add: solveL_def Let_def)
  also have "\<dots> = replicate (length L) NaN"
    by (rule nth_equalityI) auto
  finally show ?thesis .
qed

lemma reduce_dot_NaN:
  assumes "0 < n"
  shows "reduce_dot (replicate n NaN) x = NaN"
proof -
  have "[0..<n] = 0 # [1..<n]" using assms by (simp add: upt_conv_Cons)
  then show ?thesis using assms by (simp add: reduce_dot_def fold_jadd_NaN)
qed

lemma mean_agree_row:
  assumes L: "length L = n" "\<forall>i<n. length (L ! i) = n" "\<forall>i<n. L ! i ! i \<noteq> 0"
    and y: "length y = n" and row: "length row = n"
  shows "reduce_dot (solveL (map (map Num) L) (map Num row)) (solveL (map (map Num) L) (map Num y))
           = reduce_dot (map Num row) (choleskySolve (map (map Num) L) (map Num y))"
proof -
  obtain a where a: "length a = n" "solveL (map (map Num) L) (map Num y) = map Num a"
    using solveL_solves[OF L y] by blast
  obtain v where v: "length v = n" "solveL (map (map Num) L) (map Num row) = map Num v"
      "\<forall>i<n. (\<Sum>j<Suc i. L ! i ! j * v ! j) = row ! i"
    using solveL_solves[OF L row] by blast
  obtain w where w: "length w = n" "solveLT (map (map Num) L) (map Num a) = map Num w"
      "\<forall>i<n. (\<Sum>j = i..<n. L ! j ! i * w ! j) = a ! i"
    using solveLT_solves[OF L a(1)] by blast
  have "(\<Sum>i<n. v ! i * a ! i) = (\<Sum>i<n. row ! i * w ! i)"
    using v(3) w(3) by (intro tri_adjoint[of n L]) auto
  moreover have "reduce_dot (map Num v) (map Num a) = Num (\<Sum>i<length v. v ! i * a ! i)"
    using v(1) a(1) by (intro reduce_dot_Num) simp
  moreover have "reduce_dot (map Num row) (map Num w) = Num (\<Sum>i<length row. row ! i * w ! i)"
    using row w(1) by (intro reduce_dot_Num) simp
  ultimately show ?thesis
    using v(1) row by (simp add: choleskySolve_def a(2) v(2) w(2))
qed

lemma length_addDiag: "length (addDiag A c) = length A"
  by (simp add: addDiag_def)

lemma regularized_factor:
  fixes K :: "real list list"
  assumes "length K = n" "\<forall>i<n. length (K ! i) = n"
  shows "\<exists>L. cholesky (addDiag (map (map Num) K) (Num c)) = map (map Num) L \<and>
           length L = n \<and> (\<forall>i<n. length (L ! i) = n) \<and> (\<forall>i<n. L ! i ! i \<noteq> 0)"
proof -
  let ?K = "map (\<lambda>i. map (\<lambda>j. if i = j then K ! i ! j + c else K ! i ! j) [0..<length (K ! i)])
              [0..<length K]"
  have 1: "length ?K = n" using assms(1) by simp
  have 2: "\<forall>i<n. length (?K ! i) = n" using assms by simp
  obtain L where L: "cholesky (map (map Num) ?K) = map (map Num) L" "chol_inv ?K n L n 0"
    using cholesky_Num[OF 1 2] by blast
  have "\<forall>i<n. L ! i ! i \<noteq> 0"
    using chol_inv_diag[OF L(2)] by fastforce
  then show ?thesis
    using L(1) chol_inv_final(1,2)[OF L(2)] by (auto simp: addDiag_Num)
qed

lemma reduce_dot_eq_dot:
  assumes "length u \<le> length v"
  shows "reduce_dot u v = dot u v"
proof -
  have "map (\<lambda>i. jmul (u ! i) (rd v i)) [0..<length u] = map2 jmul u v"
    using assms by (intro nth_equalityI) (simp_all add: rd_def)
  moreover have "fold (\<lambda>i s. jadd s (jmul (u ! i) (rd v i))) [0..<length u] (Num 0)
                   = fold (\<lambda>t s. jadd s t) (map (\<lambda>i. jmul (u ! i) (rd v i)) [0..<length u]) (Num 0)"
    by (simp add: fold_map comp_def)
  ultimately show ?thesis
    by (simp add: reduce_dot_def dot_def foldl_conv_fold)
qed

lemma reduce_dot_long:
  assumes "length v < length u"
  shows "reduce_dot u v = NaN"
proof -
  have split: "[0..<length u] = [0..<length v] @ length v # [Suc (length v)..<length u]"
    using assms by (metis le_add2 less_imp_add_positive upt_add_eq_append upt_conv_Cons zero_le)
  show ?thesis
    by (simp add: reduce_dot_def split rd_def fold_jadd_NaN)
qed

lemma sumsq_eq_dot: "fold (\<lambda>vi s. jadd s (jmul vi vi)) v (Num 0) = dot v v"
proof -
  have "map2 jmul v v = map (\<lambda>vi. jmul vi vi) v"
    by (simp add: zip_same_conv_map)
  then show ?thesis
    by (simp add: dot_def foldl_conv_fold fold_map comp_def)
qed

lemma mapE_length: "mapE f xs = Inr ys \<Longrightarrow> length ys = length xs"
  by (induction xs arbitrary: ys) (auto split: sum.splits)

section \<open>The four kernels\<close>





section \<open>Kernel lookup\<close>

text \<open>A name that is in neither table falls back to \<open>rbf\<close>.\<close>

lemma kernelFn_of_fallback:
  assumes "name \<notin> fst ` set KERNEL_FNS" "name \<notin> fst ` set Object_prototype"
  shows "kernelFn_of name = NumFn rbf"
proof -
  have "map_of KERNEL_FNS name = None" using assms(1) by (simp add: map_of_eq_None_iff)
  moreover have "map_of Object_prototype name = None" using assms(2) by (simp add: map_of_eq_None_iff)
  ultimately show ?thesis by (simp add: kernelFn_of_def)
qed

lemma kernelFn_of_rbf: "kernelFn_of ''rbf'' = NumFn rbf"
  by (simp add: kernelFn_of_def KERNEL_FNS_def)

section \<open>One observation\<close>

lemma kernelMatrix_rbf_one: "kernelMatrix [0] [0] 1 1 ''rbf'' = Inr [[Num 1]]"
  using kernelMatrix_NumFn[OF kernelFn_of_rbf, of "[0]" "[0]" 1 1] by (simp add: rbf_def)

lemma cholesky_one: "1 / 10 ^ 10 \<le> a \<Longrightarrow> cholesky [[Num a]] = [[Num (sqrt a)]]"
  by (simp add: cholesky_def full_def chol_step_def chol_sum_def rd_def max_def)

lemma solveL_one: "r \<noteq> 0 \<Longrightarrow> solveL [[Num r]] [Num c] = [Num (c / r)]"
  by (simp add: solveL_def solveL_step_def rd_def)

lemma posterior_of_matrices:
  assumes "points \<noteq> []"
    and "kernelMatrix (map obs_x points) (map obs_x points) (lengthScale params)
           (signalVariance params) (kernelName_of params) = Inr K_XX"
    and "kernelMatrix testX (map obs_x points) (lengthScale params)
           (signalVariance params) (kernelName_of params) = Inr K_Xs"
    and "L = cholesky (addDiag K_XX (Num ((noiseLevel params)\<^sup>2 + 1 / 10 ^ 8)))"
    and "alpha = solveL L (map (\<lambda>p. Num (obs_y p)) points)"
  shows "computePosterior points testX params =
           Inr \<lparr>mean = map (\<lambda>row. dot (solveL L row) alpha) K_Xs,
                variance = map (\<lambda>row. jmax (jsub (Num (signalVariance params))
                                               (dot (solveL L row) (solveL L row)))
                                         (Num (1 / 10 ^ 10))) K_Xs\<rparr>"
    and "length K_Xs = length testX"
proof -
  show len: "length K_Xs = length testX"
    using assms(3) unfolding kernelMatrix_def Let_def by (rule mapE_length)
  have unfold: "computePosterior points testX params =
      Inr (fold (posterior_push alpha (Num (signalVariance params))) (map (solveL L) K_Xs)
             \<lparr>mean = [], variance = []\<rparr>)"
    unfolding computePosterior_def Let_def assms(2,3)
    using assms(1) by (simp add: assms(4,5))
  have "reduce_dot (solveL L row) alpha = dot (solveL L row) alpha" for row
    by (intro reduce_dot_eq_dot) (simp add: assms(5) length_solveL)
  then show "computePosterior points testX params =
           Inr \<lparr>mean = map (\<lambda>row. dot (solveL L row) alpha) K_Xs,
                variance = map (\<lambda>row. jmax (jsub (Num (signalVariance params))
                                               (dot (solveL L row) (solveL L row)))
                                         (Num (1 / 10 ^ 10))) K_Xs\<rparr>"
    by (simp add: unfold fold_posterior_push sumsq_eq_dot comp_def)
qed

lemma solveLT_one: "r \<noteq> 0 \<Longrightarrow> solveLT [[Num r]] [Num c] = [Num (c / r)]"
  by (simp add: solveLT_def solveLT_step_def rd_def)

lemma one_observation_factor:
  "cholesky (addDiag [[Num 1]] (Num (1 / 100000000))) = [[Num (sqrt (100000001 / 100000000))]]"
  by (simp add: addDiag_def cholesky_one)

lemma one_observation_posterior:
  "computePosterior [\<lparr>obs_x = 0, obs_y = 1\<rparr>] [0]
       \<lparr>kernel = Some ''rbf'', lengthScale = 1, signalVariance = 1, noiseLevel = 0\<rparr>
     = Inr \<lparr>mean = [Num (100000000 / 100000001)], variance = [Num (1 / 100000001)]\<rparr>"
proof -
  let ?r = "sqrt (100000001 / 100000000) :: real"
  have r: "?r \<noteq> 0" "1 / ?r * (1 / ?r) = 100000000 / 100000001"
    by (simp_all add: real_sqrt_divide)
  have v: "solveL [[Num ?r]] [Num 1] = [Num (1 / ?r)]"
    using solveL_one[OF r(1), of 1] by simp
  show ?thesis
    using r(2)
    by (simp add: computePosterior_def kernelName_of_def Let_def kernelMatrix_rbf_one
        one_observation_factor v posterior_push_def rd_def)
qed

lemma one_observation_mu:
  "sampleFromGP_mu [\<lparr>obs_x = 0, obs_y = 1\<rparr>] [0]
       \<lparr>kernel = Some ''rbf'', lengthScale = 1, signalVariance = 1, noiseLevel = 0\<rparr>
     = Inr [Num (100000000 / 100000001)]"
proof -
  let ?r = "sqrt (100000001 / 100000000) :: real"
  have r: "?r \<noteq> 0" "1 / ?r / ?r = 100000000 / 100000001"
    by (simp_all add: real_sqrt_divide)
  have v: "solveL [[Num ?r]] [Num 1] = [Num (1 / ?r)]"
    using solveL_one[OF r(1), of 1] by simp
  have w: "solveLT [[Num ?r]] [Num (1 / ?r)] = [Num (1 / ?r / ?r)]"
    using solveLT_one[OF r(1), of "1 / ?r"] by simp
  show ?thesis
    using r(2)
    by (simp add: sampleFromGP_mu_def kernelName_of_def Let_def kernelMatrix_rbf_one
        one_observation_factor choleskySolve_def v w matVec_def reduce_dot_def rd_def)
qed

section \<open>Rounding\<close>

lemma floor_log2:
  assumes "2 powr of_int k \<le> x" "x < 2 powr (of_int k + 1)"
  shows "\<lfloor>log 2 x\<rfloor> = k"
proof -
  have pos: "0 < x" using assms(1) by (smt (verit) powr_gt_zero)
  have "of_int k \<le> log 2 x" using assms(1) pos by (simp add: le_log_iff)
  moreover have "log 2 x < of_int k + 1" using assms(2) pos by (simp add: log_less_iff)
  ultimately show ?thesis by (intro floor_unique) simp_all
qed

lemma rnd_eval:
  assumes "x \<noteq> 0" "2 powr of_int k \<le> \<bar>x\<bar>" "\<bar>x\<bar> < 2 powr (of_int k + 1)"
    and "e = max k (- 1022)" and "u = 2 powr (of_int e - 52)" and "m = rne (x / u)"
    and "\<bar>of_int m * u\<bar> < 2 powr 1024"
  shows "rnd x = Fin (of_int m * u)"
proof -
  have "\<lfloor>log 2 \<bar>x\<bar>\<rfloor> = k" using assms(2,3) by (rule floor_log2)
  then show ?thesis using assms by (simp add: rnd_def Let_def)
qed

lemma rne_eval:
  assumes "of_int f \<le> r" "r < of_int f + 1"
  shows "r - of_int f < 1 / 2 \<Longrightarrow> rne r = f"
    and "1 / 2 < r - of_int f \<Longrightarrow> rne r = f + 1"
proof -
  have f: "\<lfloor>r\<rfloor> = f" using assms by (intro floor_unique) simp_all
  show "r - of_int f < 1 / 2 \<Longrightarrow> rne r = f" by (simp add: rne_def f)
  show "1 / 2 < r - of_int f \<Longrightarrow> rne r = f + 1" by (simp add: rne_def f)
qed

lemma rne_int: "rne (of_int m) = m"
  by (simp add: rne_def)

lemma rnd_exact:
  assumes x: "x = of_int m * 2 powr of_int j" and m: "\<bar>m\<bar> < 2 ^ 53" and j: "- 1074 \<le> j"
    and big: "\<bar>x\<bar> < 2 powr 1024"
  shows "rnd x = Fin x"
proof (cases "x = 0")
  case True
  then show ?thesis by (simp add: rnd_def)
next
  case False
  then have m0: "m \<noteq> 0" using x by auto
  define e where "e = max \<lfloor>log 2 \<bar>x\<bar>\<rfloor> (- 1022)"
  define u :: real where "u = 2 powr (of_int e - 52)"
  have absx: "\<bar>x\<bar> = of_int \<bar>m\<bar> * 2 powr of_int j"
    by (simp add: x abs_mult)
  have "\<bar>x\<bar> < 2 ^ 53 * 2 powr of_int j"
  proof -
    have "(of_int \<bar>m\<bar> :: real) < 2 ^ 53" using m by (metis of_int_less_numeral_power_cancel_iff)
    then show ?thesis unfolding absx by (simp add: mult_strict_right_mono)
  qed
  also have "(2::real) ^ 53 * 2 powr of_int j = 2 powr (of_int (j + 53))"
    by (simp add: powr_add flip: powr_numeral)
  finally have "log 2 \<bar>x\<bar> < of_int (j + 53)"
    using False by (simp add: log_less_iff)
  then have "\<lfloor>log 2 \<bar>x\<bar>\<rfloor> < j + 53" by (simp add: floor_less_iff)
  then have ej: "e \<le> j + 52" using j by (simp add: e_def)
  define d where "d = nat (j + 52 - e)"
  have d: "of_int j - (of_int e - 52) = (of_nat d :: real)"
    using ej by (simp add: d_def)
  have "x / u = of_int m * 2 powr (of_int j - (of_int e - 52))"
    by (simp add: x u_def powr_diff)
  also have "\<dots> = of_int m * 2 ^ d"
    by (simp only: d powr_realpow[of 2 d, OF zero_less_numeral])
  also have "\<dots> = of_int (m * 2 ^ d)" by simp
  finally have q: "x / u = of_int (m * 2 ^ d)" .
  have "rne (x / u) = m * 2 ^ d" unfolding q by (rule rne_int)
  then have "of_int (rne (x / u)) * u = x / u * u" using q by simp
  also have "\<dots> = x" by (simp add: u_def)
  finally have r: "of_int (rne (x / u)) * u = x" .
  show ?thesis
    using False big by (simp add: rnd_def Let_def r flip: e_def u_def)
qed

lemma rnd_small_int:
  assumes "\<bar>m\<bar> < 2 ^ 53"
  shows "rnd (of_int m) = Fin (of_int m)"
proof -
  have "\<bar>of_int m :: real\<bar> < 2 ^ 53"
    using assms by (metis of_int_abs of_int_less_numeral_power_cancel_iff)
  also have "(2::real) ^ 53 < 2 powr 1024"
    by (simp flip: powr_numeral)
  finally show ?thesis
    using assms by (intro rnd_exact[where m = m and j = 0]) simp_all
qed

lemma rnd_halves:
  assumes "\<bar>m\<bar> < 2 ^ 53"
  shows "rnd (of_int m / 2) = Fin (of_int m / 2)"
proof -
  have "\<bar>of_int m :: real\<bar> < 2 ^ 53"
    using assms by (metis of_int_abs of_int_less_numeral_power_cancel_iff)
  then have "\<bar>of_int m / 2 :: real\<bar> < 2 ^ 53" by simp
  also have "(2::real) ^ 53 < 2 powr 1024"
    by (simp flip: powr_numeral)
  finally show ?thesis
    using assms by (intro rnd_exact[where m = m and j = "- 1"]) (simp_all add: powr_minus_divide)
qed

lemma rnd_0: "rnd 0 = Fin 0" by (simp add: rnd_def)
lemma rnd_1: "rnd 1 = Fin 1" using rnd_small_int[of 1] by simp
lemma rnd_4: "rnd 4 = Fin 4" using rnd_small_int[of 4] by simp
lemma rnd_5: "rnd 5 = Fin 5" using rnd_small_int[of 5] by simp
lemma rnd_10: "rnd 10 = Fin 10" using rnd_small_int[of 10] by simp
lemma rnd_49: "rnd 49 = Fin 49" using rnd_small_int[of 49] by simp
lemma rnd_5_2: "rnd (5 / 2) = Fin (5 / 2)" using rnd_halves[of 5] by simp
lemma rnd_15_2: "rnd (15 / 2) = Fin (15 / 2)" using rnd_halves[of 15] by simp

lemma linspace_f64_0_10_5:
  "linspace_f64 0 10 5 = Inr [Fin 0, Fin (5 / 2), Fin 5, Fin (15 / 2), Fin 10]"
proof -
  have step: "linspace_f64_step 0 10 5 = Fin (5 / 2)"
    by (simp add: linspace_f64_step_def dsub_def rnd_10 rnd_4 rnd_5_2)
  show ?thesis
    by (simp add: linspace_f64_def linspace_f64_at_def step upt_conv_Cons
        rnd_0 rnd_5_2 rnd_5 rnd_15_2 rnd_10)
qed

lemma rnd_1_49: "rnd (1 / 49) = Fin (5882252574524729 / 2 ^ 58)"
proof -
  have u: "(2::real) powr (of_int (- 6) - 52) = 1 / 2 ^ 58"
    by (simp add: powr_minus flip: powr_numeral)
  have m: "rne ((1 / 49) / (1 / 2 ^ 58)) = 5882252574524729"
    by (intro rne_eval(1)) simp_all
  have "rnd (1 / 49) = Fin (of_int 5882252574524729 * (1 / 2 ^ 58))"
  proof (rule rnd_eval[where k = "- 6" and e = "- 6"])
    show "(2::real) powr of_int (- 6) \<le> \<bar>1 / 49\<bar>" by (simp add: powr_minus_divide)
    show "\<bar>1 / 49 :: real\<bar> < 2 powr (of_int (- 6) + 1)" by (simp add: powr_minus_divide)
    show "1 / 2 ^ 58 = (2::real) powr (of_int (- 6) - 52)" using u by simp
    show "5882252574524729 = rne ((1 / 49) / (1 / 2 ^ 58))" using m by simp
    show "\<bar>of_int 5882252574524729 * (1 / 2 ^ 58 :: real)\<bar> < 2 powr 1024"
      by (simp flip: powr_numeral)
  qed simp_all
  then show ?thesis by simp
qed

lemma rnd_49_steps:
  "rnd (49 * (5882252574524729 / 2 ^ 58)) = Fin (9007199254740991 / 2 ^ 53)"
proof -
  let ?x = "49 * (5882252574524729 / 2 ^ 58) :: real"
  have u: "(2::real) powr (of_int (- 1) - 52) = 1 / 2 ^ 53"
    by (simp add: powr_minus flip: powr_numeral)
  have m: "rne (?x / (1 / 2 ^ 53)) = 9007199254740991"
    by (intro rne_eval(1)) simp_all
  have "rnd ?x = Fin (of_int 9007199254740991 * (1 / 2 ^ 53))"
  proof (rule rnd_eval[where k = "- 1" and e = "- 1"])
    show "(2::real) powr of_int (- 1) \<le> \<bar>?x\<bar>" by (simp add: powr_minus_divide)
    show "\<bar>?x\<bar> < 2 powr (of_int (- 1) + 1)" by simp
    show "1 / 2 ^ 53 = (2::real) powr (of_int (- 1) - 52)" using u by simp
    show "9007199254740991 = rne (?x / (1 / 2 ^ 53))" using m by simp
    show "\<bar>of_int 9007199254740991 * (1 / 2 ^ 53 :: real)\<bar> < 2 powr 1024"
      by (simp flip: powr_numeral)
  qed simp_all
  then show ?thesis by simp
qed

lemma rnd_last: "rnd (9007199254740991 / 2 ^ 53) = Fin (9007199254740991 / 2 ^ 53)"
proof -
  have "(9007199254740991 / 2 ^ 53 :: real) = of_int 9007199254740991 * 2 powr of_int (- 53)"
    by (simp add: powr_minus_divide flip: powr_numeral)
  moreover have "\<bar>9007199254740991 / 2 ^ 53 :: real\<bar> < 2 powr 1024"
    by (simp flip: powr_numeral)
  ultimately show ?thesis
    by (intro rnd_exact[where m = 9007199254740991 and j = "- 53"]) simp_all
qed

lemma linspace_f64_0_1_50_last:
  "linspace_f64_at 0 1 50 49 = Fin (9007199254740991 / 2 ^ 53)"
proof -
  have step: "linspace_f64_step 0 1 50 = Fin (5882252574524729 / 2 ^ 58)"
    by (simp add: linspace_f64_step_def dsub_def rnd_1 rnd_49 rnd_1_49)
  show ?thesis
    using rnd_49_steps rnd_last by (simp add: linspace_f64_at_def step)
qed




text \<open>
  \<open>rnd\<close> on values whose double is known: \<open>0.1\<close>, two ties (to the even neighbour
  below and above), and the first value that overflows.
\<close>

lemma rnd_tenth: "rnd (1 / 10) = Fin (3602879701896397 / 2 ^ 55)"
proof -
  have u: "(2::real) powr (of_int (- 4) - 52) = 1 / 2 ^ 56"
    by (simp add: powr_minus flip: powr_numeral)
  have m: "rne ((1 / 10) / (1 / 2 ^ 56)) = 7205759403792793 + 1"
    by (intro rne_eval(2)) simp_all
  have "rnd (1 / 10) = Fin (of_int 7205759403792794 * (1 / 2 ^ 56))"
  proof (rule rnd_eval[where k = "- 4" and e = "- 4"])
    show "(2::real) powr of_int (- 4) \<le> \<bar>1 / 10\<bar>" by (simp add: powr_minus_divide)
    show "\<bar>1 / 10 :: real\<bar> < 2 powr (of_int (- 4) + 1)" by (simp add: powr_minus_divide)
    show "1 / 2 ^ 56 = (2::real) powr (of_int (- 4) - 52)" using u by simp
    show "7205759403792794 = rne ((1 / 10) / (1 / 2 ^ 56))" using m by simp
    show "\<bar>of_int 7205759403792794 * (1 / 2 ^ 56 :: real)\<bar> < 2 powr 1024"
      by (simp flip: powr_numeral)
  qed simp_all
  then show ?thesis by simp
qed

lemma rnd_tie: "rnd (2 ^ 53 + 1) = Fin (2 ^ 53)" and "rnd (2 ^ 53 + 3) = Fin (2 ^ 53 + 4)"
proof -
  have u: "(2::real) powr (of_int 53 - 52) = 2"
    by simp
  have m1: "rne ((2 ^ 53 + 1) / 2) = 2 ^ 52"
    by (simp add: rne_def) 
  have m2: "rne ((2 ^ 53 + 3) / 2) = 2 ^ 52 + 2"
    by (simp add: rne_def)
  have "rnd (2 ^ 53 + 1) = Fin (of_int (2 ^ 52) * 2)"
  proof (rule rnd_eval[where k = 53 and e = 53])
    show "(2::real) powr of_int 53 \<le> \<bar>2 ^ 53 + 1\<bar>" by (simp flip: powr_numeral)
    show "\<bar>2 ^ 53 + 1 :: real\<bar> < 2 powr (of_int 53 + 1)" by (simp flip: powr_numeral)
    show "2 = (2::real) powr (of_int 53 - 52)" by simp
    show "2 ^ 52 = rne ((2 ^ 53 + 1) / 2)" using m1 by simp
    show "\<bar>of_int (2 ^ 52) * (2::real)\<bar> < 2 powr 1024" by (simp flip: powr_numeral)
  qed simp_all
  then show "rnd (2 ^ 53 + 1) = Fin (2 ^ 53)" by simp
  have "rnd (2 ^ 53 + 3) = Fin (of_int (2 ^ 52 + 2) * 2)"
  proof (rule rnd_eval[where k = 53 and e = 53])
    show "(2::real) powr of_int 53 \<le> \<bar>2 ^ 53 + 3\<bar>" by (simp flip: powr_numeral)
    show "\<bar>2 ^ 53 + 3 :: real\<bar> < 2 powr (of_int 53 + 1)" by (simp flip: powr_numeral)
    show "2 = (2::real) powr (of_int 53 - 52)" by simp
    show "2 ^ 52 + 2 = rne ((2 ^ 53 + 3) / 2)" using m2 by simp
    show "\<bar>of_int (2 ^ 52 + 2) * (2::real)\<bar> < 2 powr 1024" by (simp flip: powr_numeral)
  qed simp_all
  then show "rnd (2 ^ 53 + 3) = Fin (2 ^ 53 + 4)" by simp
qed

lemma rnd_overflow: "rnd (2 ^ 1024) = PosInf"
proof -
  have "\<lfloor>log 2 \<bar>2 ^ 1024 :: real\<bar>\<rfloor> = 1024"
    by (intro floor_log2) (simp_all flip: powr_numeral)
  moreover have "(2::real) ^ 1024 / 2 powr (1024 - 52) = of_int (2 ^ 52)"
    by (simp add: powr_diff flip: powr_numeral)
  ultimately show ?thesis
    by (simp add: rnd_def Let_def rne_def flip: powr_numeral)
qed

section \<open>An indefinite matrix\<close>



section \<open>The prior\<close>

text \<open>
  C1. With no observation, \<open>computePosterior\<close> returns the prior for any parameters
  and any query inputs: one mean \<open>0\<close> and one variance \<open>signalVariance\<close> per query
  input. The kernel name is not looked up on this path, so the call returns for
  every kernel name.
\<close>

theorem computePosterior_prior:
  "computePosterior [] testX params =
     Inr \<lparr>mean = replicate (length testX) (Num 0),
          variance = replicate (length testX) (Num (signalVariance params))\<rparr>"
  by (simp add: computePosterior_def Let_def)

theorem computePosterior_prior_witness:
  "computePosterior [] [0, 1, 2]
       \<lparr>kernel = None, lengthScale = 1, signalVariance = 1, noiseLevel = 0\<rparr>
     = Inr \<lparr>mean = [Num 0, Num 0, Num 0], variance = [Num 1, Num 1, Num 1]\<rparr>"
  using computePosterior_prior[of "[0, 1, 2]"
      "\<lparr>kernel = None, lengthScale = 1, signalVariance = 1, noiseLevel = 0\<rparr>"]
  by (simp add: numeral_3_eq_3)

section \<open>The posterior\<close>

text \<open>
  C2. With at least one observation, and with \<open>K_XX\<close> and \<open>K_Xs\<close> the kernel matrices
  \<open>K(X,X)\<close> and \<open>K(X*,X)\<close>: \<open>L\<close> is the factor of \<open>K_XX\<close> with
  \<open>noiseLevel\<^sup>2 + 1e-8\<close> added to its diagonal, \<open>alpha\<close> is the forward solve of the
  observed outputs alone, and for each row of \<open>K_Xs\<close>, in order, the mean is the dot
  product of the row's forward solve \<open>v\<close> with \<open>alpha\<close> and the variance is
  \<open>max (signalVariance - v\<cdot>v) 1e-10\<close>. There is one row per query input.
\<close>

theorem computePosterior_formula:
  assumes "points \<noteq> []"
  shows "computePosterior points testX params =
           (case kernelMatrix (map obs_x points) (map obs_x points) (lengthScale params)
                   (signalVariance params) (kernelName_of params) of
              Inl e \<Rightarrow> Inl e
            | Inr K_XX \<Rightarrow>
                (case kernelMatrix testX (map obs_x points) (lengthScale params)
                        (signalVariance params) (kernelName_of params) of
                   Inl e \<Rightarrow> Inl e
                 | Inr K_Xs \<Rightarrow>
                     let L = cholesky (addDiag K_XX (Num ((noiseLevel params)\<^sup>2 + 1 / 10 ^ 8)));
                         alpha = solveL L (map (\<lambda>p. Num (obs_y p)) points)
                     in Inr \<lparr>mean = map (\<lambda>row. dot (solveL L row) alpha) K_Xs,
                             variance =
                               map (\<lambda>row. jmax (jsub (Num (signalVariance params))
                                                  (dot (solveL L row) (solveL L row)))
                                            (Num (1 / 10 ^ 10))) K_Xs\<rparr>)) \<and>
         (\<forall>r. computePosterior points testX params = Inr r \<longrightarrow>
              length (mean r) = length testX \<and> length (variance r) = length testX)"
proof (cases "kernelMatrix (map obs_x points) (map obs_x points) (lengthScale params)
                (signalVariance params) (kernelName_of params)")
  case (Inl e)
  then show ?thesis using assms by (simp add: computePosterior_def Let_def)
next
  case xx: (Inr K_XX)
  show ?thesis
  proof (cases "kernelMatrix testX (map obs_x points) (lengthScale params)
                  (signalVariance params) (kernelName_of params)")
    case (Inl e)
    then show ?thesis using assms xx by (simp add: computePosterior_def Let_def)
  next
    case xs: (Inr K_Xs)
    show ?thesis
      using posterior_of_matrices[OF assms xx xs refl refl]
      by (simp add: xx xs Let_def)
  qed
qed

theorem computePosterior_formula_witness:
  "[\<lparr>obs_x = 0, obs_y = 1\<rparr>] \<noteq> [] \<and>
   computePosterior [\<lparr>obs_x = 0, obs_y = 1\<rparr>] [0]
       \<lparr>kernel = Some ''rbf'', lengthScale = 1, signalVariance = 1, noiseLevel = 0\<rparr>
     = Inr \<lparr>mean = [Num (100000000 / 100000001)], variance = [Num (1 / 100000001)]\<rparr>"
proof -
  let ?pts = "[\<lparr>obs_x = 0, obs_y = 1\<rparr>]"
  let ?p = "\<lparr>kernel = Some ''rbf'', lengthScale = 1, signalVariance = 1, noiseLevel = 0\<rparr>"
  let ?r = "sqrt (100000001 / 100000000) :: real"
  have h1: "?pts \<noteq> []" by simp
  have k: "kernelName_of ?p = ''rbf''" by (simp add: kernelName_of_def)
  have L: "cholesky (addDiag [[Num 1]] (Num (1 / 100000000))) = [[Num ?r]]"
    by (simp add: addDiag_def cholesky_one)
  have r: "?r \<noteq> 0" "1 / ?r * (1 / ?r) = 100000000 / 100000001"
    by (simp_all add: real_sqrt_divide)
  have v: "solveL [[Num ?r]] [Num 1] = [Num (1 / ?r)]"
    using solveL_one[OF r(1), of 1] by simp
  have d: "dot [Num (1 / ?r)] [Num (1 / ?r)] = Num (100000000 / 100000001)"
    using r(2) by (simp add: dot_def)
  show ?thesis
    using computePosterior_formula[OF h1, of "[0]" ?p]
    by (simp add: k kernelMatrix_rbf_one L v d)
qed

text \<open>
  C3. With at least one observation and a nonzero length scale, the mean that
  \<open>computePosterior\<close> returns (from forward solves only) is the posterior mean \<open>mu\<close>
  of \<open>sampleFromGP\<close> (from the two-step solve), for every query list and every
  parameter bundle; when the kernel cannot be called, both throw the same error.
\<close>

theorem posterior_mean_agrees:
  assumes "points \<noteq> []" and "lengthScale params \<noteq> 0"
  shows "map_sum id mean (computePosterior points testX params)
           = sampleFromGP_mu points testX params"
proof -
  define X where "X = map obs_x points"
  define yr where "yr = map obs_y points"
  define n where "n = length points"
  define l where "l = lengthScale params"
  define s where "s = signalVariance params"
  define c where "c = (noiseLevel params)\<^sup>2 + 1 / 10 ^ 8"
  define name where "name = kernelName_of params"
  have n0: "n \<noteq> 0" "0 < n" using assms(1) by (simp_all add: n_def)
  have Xn: "length X = n" "X \<noteq> []" using assms(1) by (simp_all add: X_def n_def)
  have y: "map (\<lambda>p. Num (obs_y p)) points = map Num yr" by (simp add: yr_def)
  have yn: "length yr = n" by (simp add: yr_def n_def)
  have c: "(noiseLevel params)\<^sup>2 + 1 / 100000000 = c" by (simp add: c_def)
  show ?thesis
  proof (cases "kernelFn_of name")
    case BadFn
    have "kernelMatrix X X l s name = Inl TypeError"
      using BadFn Xn(2) by (intro kernelMatrix_BadFn) simp_all
    then show ?thesis
      using assms(1)
      by (simp add: computePosterior_def sampleFromGP_mu_def Let_def
          flip: X_def l_def s_def name_def)
  next
    case StrFn
    let ?L = "cholesky (addDiag (map (\<lambda>xi. replicate n NaN) X) (Num c))"
    have kxx: "kernelMatrix X X l s name = Inr (map (\<lambda>xi. replicate n NaN) X)"
      using kernelMatrix_StrFn[OF StrFn, of X X l s] Xn(1) by simp
    have kxs: "kernelMatrix testX X l s name = Inr (map (\<lambda>xi. replicate n NaN) testX)"
      using kernelMatrix_StrFn[OF StrFn, of testX X l s] Xn(1) by simp
    have kss: "kernelMatrix testX testX l s name = Inr (map (\<lambda>xi. replicate (length testX) NaN) testX)"
      using kernelMatrix_StrFn[OF StrFn, of testX testX l s] by simp
    have lenL: "length ?L = n"
      by (simp add: length_cholesky length_addDiag Xn(1))
    have v: "solveL ?L (replicate n NaN) = replicate n NaN"
      using solveL_NaN[of ?L "replicate n NaN"] lenL by (simp add: rd_def)
    have lhs: "computePosterior points testX params =
        Inr (fold (posterior_push (solveL ?L (map Num yr)) (Num s))
               (map (solveL ?L) (map (\<lambda>xi. replicate n NaN) testX)) \<lparr>mean = [], variance = []\<rparr>)"
      using assms(1)
      by (simp add: computePosterior_def Let_def kxx kxs y c
          flip: X_def l_def s_def name_def)
    have rhs: "sampleFromGP_mu points testX params =
        Inr (matVec (map (\<lambda>xi. replicate n NaN) testX) (choleskySolve ?L (map Num yr)))"
      by (simp add: sampleFromGP_mu_def Let_def kxx kxs kss y c
          flip: X_def l_def s_def name_def)
    show ?thesis
      using n0(2) by (simp add: lhs rhs fold_posterior_push matVec_def comp_def v reduce_dot_NaN)
  next
    case (NumFn k)
    define KXX where "KXX = map (\<lambda>xi. map (\<lambda>xj. k xi xj l s) X) X"
    define KXs where "KXs = map (\<lambda>xi. map (\<lambda>xj. k xi xj l s) X) testX"
    define Kss where "Kss = map (\<lambda>xi. map (\<lambda>xj. k xi xj l s) testX) testX"
    have kxx: "kernelMatrix X X l s name = Inr (map (map Num) KXX)"
      unfolding KXX_def by (rule kernelMatrix_NumFn[OF NumFn])
    have kxs: "kernelMatrix testX X l s name = Inr (map (map Num) KXs)"
      unfolding KXs_def by (rule kernelMatrix_NumFn[OF NumFn])
    have kss: "kernelMatrix testX testX l s name = Inr (map (map Num) Kss)"
      unfolding Kss_def by (rule kernelMatrix_NumFn[OF NumFn])
    have sq: "length KXX = n" "\<forall>i<n. length (KXX ! i) = n"
      using Xn(1) by (simp_all add: KXX_def)
    have rows: "\<And>row. row \<in> set KXs \<Longrightarrow> length row = n"
      using Xn(1) by (auto simp: KXs_def)
    obtain L where L: "cholesky (addDiag (map (map Num) KXX) (Num c)) = map (map Num) L"
        "length L = n" "\<forall>i<n. length (L ! i) = n" "\<forall>i<n. L ! i ! i \<noteq> 0"
      using regularized_factor[OF sq] by blast
    have lhs: "computePosterior points testX params =
        Inr (fold (posterior_push (solveL (map (map Num) L) (map Num yr)) (Num s))
               (map (solveL (map (map Num) L)) (map (map Num) KXs)) \<lparr>mean = [], variance = []\<rparr>)"
      using assms(1)
      by (simp add: computePosterior_def Let_def kxx kxs y c L(1)
          flip: X_def l_def s_def name_def)
    have rhs: "sampleFromGP_mu points testX params =
        Inr (matVec (map (map Num) KXs) (choleskySolve (map (map Num) L) (map Num yr)))"
      by (simp add: sampleFromGP_mu_def Let_def kxx kxs kss y c L(1)
          flip: X_def l_def s_def name_def)
    have "map (\<lambda>row. reduce_dot (solveL (map (map Num) L) (map Num row))
                       (solveL (map (map Num) L) (map Num yr))) KXs
            = map (\<lambda>row. reduce_dot (map Num row) (choleskySolve (map (map Num) L) (map Num yr))) KXs"
      using mean_agree_row[OF L(2,3,4) yn] rows by (intro map_cong) auto
    then show ?thesis
      by (simp add: lhs rhs fold_posterior_push matVec_def comp_def)
  qed
qed

theorem posterior_mean_agrees_witness:
  "[\<lparr>obs_x = 0, obs_y = 1\<rparr>] \<noteq> [] \<and>
   lengthScale \<lparr>kernel = Some ''matern32'', lengthScale = 1, signalVariance = 1, noiseLevel = 0\<rparr>
     \<noteq> 0 \<and>
   map_sum id mean (computePosterior [\<lparr>obs_x = 0, obs_y = 1\<rparr>] [0, 1]
       \<lparr>kernel = Some ''matern32'', lengthScale = 1, signalVariance = 1, noiseLevel = 0\<rparr>)
     = sampleFromGP_mu [\<lparr>obs_x = 0, obs_y = 1\<rparr>] [0, 1]
       \<lparr>kernel = Some ''matern32'', lengthScale = 1, signalVariance = 1, noiseLevel = 0\<rparr>"
  using posterior_mean_agrees[of "[\<lparr>obs_x = 0, obs_y = 1\<rparr>]"
      "\<lparr>kernel = Some ''matern32'', lengthScale = 1, signalVariance = 1, noiseLevel = 0\<rparr>"
      "[0, 1]"]
  by simp

section \<open>The factorization\<close>

text \<open>
  C4. For a square matrix \<open>A\<close> of size \<open>n\<close>, \<open>cholesky\<close> returns an \<open>n \<times> n\<close> matrix of
  finite numbers that is zero above the diagonal and satisfies the recurrence: below
  the diagonal \<open>L[i][j] = (A[i][j] - \<Sum>k<j. L[i][k] L[j][k]) / L[j][j]\<close>, and on
  the diagonal \<open>L[i][i] = sqrt (max (A[i][i] - \<Sum>k<i. L[i][k]\<^sup>2) 1e-10)\<close>.
\<close>

theorem cholesky_recurrence:
  assumes "length A = n" "\<forall>r<n. length (A ! r) = n"
  shows "\<exists>L. cholesky (map (map Num) A) = map (map Num) L \<and>
           length L = n \<and> (\<forall>i<n. length (L ! i) = n) \<and>
           (\<forall>i<n. \<forall>j<n. i < j \<longrightarrow> L ! i ! j = 0) \<and>
           (\<forall>i<n. \<forall>j<i. L ! i ! j = (A ! i ! j - (\<Sum>k<j. L ! i ! k * L ! j ! k)) / L ! j ! j) \<and>
           (\<forall>i<n. L ! i ! i = sqrt (max (A ! i ! i - (\<Sum>k<i. (L ! i ! k)\<^sup>2)) (1 / 10 ^ 10)))"
proof -
  obtain L where L: "cholesky (map (map Num) A) = map (map Num) L" "chol_inv A n L n 0"
    using cholesky_Num[OF assms] by blast
  note fin = chol_inv_final[OF L(2)]
  have low: "\<forall>i<n. \<forall>j<i. L ! i ! j = (A ! i ! j - (\<Sum>k<j. L ! i ! k * L ! j ! k)) / L ! j ! j"
  proof (intro allI impI)
    fix i j assume "i < n" "j < i"
    then have "L ! i ! j = chol_rec A L i j" using fin(4) by simp
    then show "L ! i ! j = (A ! i ! j - (\<Sum>k<j. L ! i ! k * L ! j ! k)) / L ! j ! j"
      using \<open>j < i\<close> by (simp add: chol_rec_def)
  qed
  have diag: "\<forall>i<n. L ! i ! i = sqrt (max (A ! i ! i - (\<Sum>k<i. (L ! i ! k)\<^sup>2)) (1 / 10 ^ 10))"
  proof (intro allI impI)
    fix i assume "i < n"
    then have "L ! i ! i = chol_rec A L i i" using fin(4) by simp
    then show "L ! i ! i = sqrt (max (A ! i ! i - (\<Sum>k<i. (L ! i ! k)\<^sup>2)) (1 / 10 ^ 10))"
      by (simp add: chol_rec_def power2_eq_square)
  qed
  show ?thesis using L(1) fin(1,2,3) low diag by blast
qed

theorem cholesky_recurrence_witness:
  "length [[4, 2], [2, 5 :: real]] = 2 \<and>
   cholesky [[Num 4, Num 2], [Num 2, Num 5]] = [[Num 2, Num 0], [Num 1, Num 2]]"
proof -
  let ?A = "[[4, 2], [2, 5 :: real]]"
  have h1: "length ?A = 2" by simp
  have h2: "\<forall>r<2. length (?A ! r) = 2" by (simp add: less_2_cases_iff)
  obtain L where L: "cholesky (map (map Num) ?A) = map (map Num) L"
      "length L = 2" "\<forall>i<2. length (L ! i) = 2"
      "\<forall>i<2. \<forall>j<2. i < j \<longrightarrow> L ! i ! j = 0"
      "\<forall>i<2. \<forall>j<i. L ! i ! j = (?A ! i ! j - (\<Sum>k<j. L ! i ! k * L ! j ! k)) / L ! j ! j"
      "\<forall>i<2. L ! i ! i = sqrt (max (?A ! i ! i - (\<Sum>k<i. (L ! i ! k)\<^sup>2)) (1 / 10 ^ 10))"
    using cholesky_recurrence[OF h1 h2] by blast
  have l00: "L ! 0 ! 0 = 2" using L(6) by (simp add: less_2_cases_iff)
  have l01: "L ! 0 ! 1 = 0" using L(4) by (simp add: less_2_cases_iff)
  have l10: "L ! 1 ! 0 = 1" using L(5) l00 by (simp add: less_2_cases_iff)
  have "L ! 1 ! 1 = sqrt (max (5 - (L ! 1 ! 0)\<^sup>2) (1 / 10 ^ 10))"
    using L(6) by (simp add: less_2_cases_iff)
  then have l11: "L ! 1 ! 1 = 2" using l10 by simp
  have r0: "L ! 0 = [2, 0]"
    using L(3) l00 l01 by (intro nth_equalityI) (auto simp: less_2_cases_iff)
  have r1: "L ! 1 = [1, 2]"
    using L(3) l10 l11 by (intro nth_equalityI) (auto simp: less_2_cases_iff)
  have "L = [[2, 0], [1, 2]]"
    using L(2) r0 r1 by (intro nth_equalityI) (auto simp: less_2_cases_iff)
  then show ?thesis using L(1) by simp
qed




section \<open>The triangular solves\<close>

text \<open>
  C5. For an \<open>n \<times> n\<close> lower-triangular matrix \<open>L\<close> with a nonzero diagonal and a vector
  \<open>b\<close> of length \<open>n\<close>, \<open>choleskySolve\<close> is the backward solve of the forward solve, and
  applying \<open>L\<cdot>L\<^sup>T\<close> to its result with \<open>matVec\<close> gives \<open>b\<close> back.
\<close>

theorem choleskySolve_roundtrip:
  assumes "length L = n" "\<forall>i<n. length (L ! i) = n"
    and "\<forall>i<n. \<forall>j<n. i < j \<longrightarrow> L ! i ! j = 0"
    and "\<forall>i<n. L ! i ! i \<noteq> 0"
    and "length b = n"
  shows "choleskySolve (map (map Num) L) (map Num b)
           = solveLT (map (map Num) L) (solveL (map (map Num) L) (map Num b)) \<and>
         matVec (map (map Num) (mat_LLt L)) (choleskySolve (map (map Num) L) (map Num b))
           = map Num b"
proof -
  obtain z where z: "length z = n" "solveL (map (map Num) L) (map Num b) = map Num z"
      "\<forall>i<n. (\<Sum>j<Suc i. L ! i ! j * z ! j) = b ! i"
    using solveL_solves[OF assms(1,2,4,5)] by blast
  obtain x where x: "length x = n" "solveLT (map (map Num) L) (map Num z) = map Num x"
      "\<forall>i<n. (\<Sum>j = i..<n. L ! j ! i * x ! j) = z ! i"
    using solveLT_solves[OF assms(1,2,4) z(1)] by blast
  have cs: "choleskySolve (map (map Num) L) (map Num b) = map Num x"
    by (simp add: choleskySolve_def z(2) x(2))
  have row: "reduce_dot (map Num (mat_LLt L ! i)) (map Num x) = Num (b ! i)" if "i < n" for i
  proof -
    have r: "mat_LLt L ! i = map (\<lambda>j. \<Sum>k<n. L ! i ! k * L ! j ! k) [0..<n]"
      using that assms(1) by (simp add: mat_LLt_def)
    have "reduce_dot (map Num (mat_LLt L ! i)) (map Num x)
            = Num (\<Sum>j<length (mat_LLt L ! i). mat_LLt L ! i ! j * x ! j)"
      using x(1) by (intro reduce_dot_Num) (simp add: r)
    also have "(\<Sum>j<length (mat_LLt L ! i). mat_LLt L ! i ! j * x ! j)
            = (\<Sum>j<n. (\<Sum>k<n. L ! i ! k * L ! j ! k) * x ! j)"
      by (simp add: r)
    also have "\<dots> = b ! i"
      using assms(3) z(3) x(3) that by (intro LLt_apply) auto
    finally show ?thesis .
  qed
  have "matVec (map (map Num) (mat_LLt L)) (map Num x) = map Num b"
  proof (intro nth_equalityI)
    show "length (matVec (map (map Num) (mat_LLt L)) (map Num x)) = length (map Num b)"
      using assms(1,5) by (simp add: matVec_def mat_LLt_def)
  next
    fix i assume "i < length (matVec (map (map Num) (mat_LLt L)) (map Num x))"
    then have i: "i < n" using assms(1) by (simp add: matVec_def mat_LLt_def)
    then have "i < length (mat_LLt L)" using assms(1) by (simp add: mat_LLt_def)
    then have "matVec (map (map Num) (mat_LLt L)) (map Num x) ! i
                 = reduce_dot (map Num (mat_LLt L ! i)) (map Num x)"
      by (simp add: matVec_def)
    then show "matVec (map (map Num) (mat_LLt L)) (map Num x) ! i = map Num b ! i"
      using row[OF i] i assms(5) by simp
  qed
  then show ?thesis using cs by (simp add: choleskySolve_def)
qed

theorem choleskySolve_roundtrip_witness:
  "length [[2, 0], [1, 2 :: real]] = 2 \<and> length [2, 5 :: real] = 2 \<and>
   matVec (map (map Num) (mat_LLt [[2, 0], [1, 2]]))
     (choleskySolve [[Num 2, Num 0], [Num 1, Num 2]] [Num 2, Num 5]) = [Num 2, Num 5]"
proof -
  let ?L = "[[2, 0], [1, 2 :: real]]"
  have h1: "length ?L = 2" by simp
  have h2: "\<forall>i<2. length (?L ! i) = 2" by (simp add: less_2_cases_iff)
  have h3: "\<forall>i<2. \<forall>j<2. i < j \<longrightarrow> ?L ! i ! j = 0" by (auto simp: less_2_cases_iff)
  have h4: "\<forall>i<2. ?L ! i ! i \<noteq> 0" by (simp add: less_2_cases_iff)
  have h5: "length [2, 5 :: real] = 2" by simp
  show ?thesis
    using choleskySolve_roundtrip[OF h1 h2 h3 h4 h5, THEN conjunct2] by simp
qed

section \<open>The kernels and their lookup\<close>




text \<open>
  C7. A kernel name that \<open>KERNEL_FNS\<close> inherits from \<open>Object.prototype\<close> is not one
  of the four registered names, and yet it does not fall back to \<open>rbf\<close>: with
  \<open>kernel = "hasOwnProperty"\<close> and one observation, \<open>computePosterior\<close> and the
  posterior branch of \<open>sampleFromGP\<close> throw a \<open>TypeError\<close>, where with
  \<open>kernel = "rbf"\<close> they return a mean of \<open>100000000 / 100000001\<close>.
\<close>

theorem inherited_name_not_fallback:
  "computePosterior [\<lparr>obs_x = 0, obs_y = 1\<rparr>] [0]
     \<lparr>kernel = Some ''hasOwnProperty'', lengthScale = 1, signalVariance = 1, noiseLevel = 0\<rparr>
     = Inl TypeError \<and>
   sampleFromGP_mu [\<lparr>obs_x = 0, obs_y = 1\<rparr>] [0]
     \<lparr>kernel = Some ''hasOwnProperty'', lengthScale = 1, signalVariance = 1, noiseLevel = 0\<rparr>
     = Inl TypeError \<and>
   computePosterior [\<lparr>obs_x = 0, obs_y = 1\<rparr>] [0]
     \<lparr>kernel = Some ''rbf'', lengthScale = 1, signalVariance = 1, noiseLevel = 0\<rparr>
     = Inr \<lparr>mean = [Num (100000000 / 100000001)], variance = [Num (1 / 100000001)]\<rparr> \<and>
   sampleFromGP_mu [\<lparr>obs_x = 0, obs_y = 1\<rparr>] [0]
     \<lparr>kernel = Some ''rbf'', lengthScale = 1, signalVariance = 1, noiseLevel = 0\<rparr>
     = Inr [Num (100000000 / 100000001)]"
proof -
  have bad: "kernelFn_of ''hasOwnProperty'' = BadFn"
    by (simp add: kernelFn_of_def KERNEL_FNS_def Object_prototype_def)
  have 1: "kernelMatrix [0] [0] 1 1 ''hasOwnProperty'' = Inl TypeError"
    using bad by (intro kernelMatrix_BadFn) simp_all
  have 2: "computePosterior [\<lparr>obs_x = 0, obs_y = 1\<rparr>] [0]
     \<lparr>kernel = Some ''hasOwnProperty'', lengthScale = 1, signalVariance = 1, noiseLevel = 0\<rparr>
     = Inl TypeError"
    by (simp add: computePosterior_def kernelName_of_def Let_def 1)
  have 3: "sampleFromGP_mu [\<lparr>obs_x = 0, obs_y = 1\<rparr>] [0]
     \<lparr>kernel = Some ''hasOwnProperty'', lengthScale = 1, signalVariance = 1, noiseLevel = 0\<rparr>
     = Inl TypeError"
    by (simp add: sampleFromGP_mu_def kernelName_of_def Let_def 1)
  show ?thesis
    using 2 3 one_observation_posterior one_observation_mu by blast
qed

section \<open>Construction and dimension checks\<close>

text \<open>
  C8, as stated, fails: \<open>matVec\<close> on a row of two entries and a vector of three
  returns a number, and \<open>transpose\<close> on a ragged matrix returns a matrix; neither
  call fails.
\<close>

theorem mismatch_not_refused:
  "matVec [[Num 1, Num 2]] [Num 3, Num 4, Num 5] = [Num 11] \<and>
   transpose_mat [[Num 1, Num 2], [Num 3, Num 4, Num 5]]
     = Inr [[Some (Num 1), Some (Num 3)], [Some (Num 2), Some (Num 4)]]"
  by (simp add: matVec_def reduce_dot_def rd_def transpose_mat_def upt_conv_Cons)

text \<open>
  C8, amended. \<open>matVec\<close> and \<open>transpose\<close> do not check dimensions. \<open>matVec\<close> never fails: a row
  no longer than the vector gives its dot product with the leading entries of the
  vector, and a longer row gives \<open>NaN\<close>. \<open>transpose\<close> throws on the empty matrix
  only; otherwise its column count is that of the first row, an entry that a
  shorter row lacks is \<open>undefined\<close>, and the surplus entries of a longer row are
  dropped.
\<close>

theorem primitives_unchecked:
  "matVec A x = map (\<lambda>row. if length row \<le> length x then dot row x else NaN) A \<and>
   (transpose_mat A = Inl TypeError \<longleftrightarrow> A = []) \<and>
   (A \<noteq> [] \<longrightarrow>
      transpose_mat A =
        Inr (map (\<lambda>j. map (\<lambda>row. if j < length row then Some (row ! j) else None) A)
               [0..<length (A ! 0)]))"
proof -
  have "reduce_dot row x = (if length row \<le> length x then dot row x else NaN)" for row
    using reduce_dot_eq_dot[of row x] reduce_dot_long[of x row] by auto
  then have "matVec A x = map (\<lambda>row. if length row \<le> length x then dot row x else NaN) A"
    by (simp add: matVec_def)
  then show ?thesis
    by (cases A) (simp_all add: transpose_mat_def)
qed

theorem primitives_unchecked_witness:
  "matVec [[Num 1, Num 2], [Num 1, Num 2, Num 3]] [Num 3, Num 4] = [Num 11, NaN] \<and>
   transpose_mat [] = Inl TypeError \<and>
   transpose_mat [[Num 1, Num 2], [Num 3]] = Inr [[Some (Num 1), Some (Num 3)], [Some (Num 2), None]]"
  using primitives_unchecked[of "[[Num 1, Num 2], [Num 1, Num 2, Num 3]]" "[Num 3, Num 4]"]
    primitives_unchecked[of "[]" "[]"]
    primitives_unchecked[of "[[Num 1, Num 2], [Num 3]]" "[]"]
  by (simp add: dot_def upt_conv_Cons)

text \<open>
  C9, as stated, fails. In double precision \<open>linspace(0, 1, 50)\<close> ends at
  \<open>1 - 2\<^sup>-\<^sup>5\<^sup>3\<close>, not at \<open>end = 1\<close>, which is what \<open>start + i (end - start) / (n - 1)\<close>
  is at \<open>i = n - 1\<close>; and for \<open>n = 2\<^sup>3\<^sup>2\<close> the call throws.
\<close>

theorem linspace_not_exact:
  "linspace_f64 0 1 50 = Inr (map (linspace_f64_at 0 1 50) [0..<50]) \<and>
   map (linspace_f64_at 0 1 50) [0..<50] ! 49 = Fin (9007199254740991 / 2 ^ 53) \<and>
   Fin (9007199254740991 / 2 ^ 53) \<noteq> Fin 1 \<and>
   linspace 0 1 (2 ^ 32) = Inl RangeError \<and>
   linspace_f64 0 1 (2 ^ 32) = Inl RangeError"
proof -
  have 1: "linspace_f64 0 1 50 = Inr (map (linspace_f64_at 0 1 50) [0..<50])"
    by (simp add: linspace_f64_def)
  have 2: "map (linspace_f64_at 0 1 50) [0..<50] ! 49 = Fin (9007199254740991 / 2 ^ 53)"
    using linspace_f64_0_1_50_last by simp
  have 3: "Fin (9007199254740991 / 2 ^ 53) \<noteq> Fin 1" by simp
  have 4: "linspace 0 1 (2 ^ 32) = Inl RangeError" by (simp add: linspace_def)
  have 5: "linspace_f64 0 1 (2 ^ 32) = Inl RangeError" by (simp add: linspace_f64_def)
  show ?thesis using 1 2 3 4 5 by blast
qed

text \<open>
  C9, amended. For \<open>2 \<le> n < 2\<^sup>3\<^sup>2\<close>, \<open>linspace\<close> returns \<open>n\<close> points. Over exact
  arithmetic the point \<open>i\<close> is \<open>start + i (end - start) / (n - 1)\<close>, the first being
  \<open>start\<close> and the last \<open>end\<close>. In double precision the point \<open>i\<close> is
  \<open>start + i * step\<close> with every operation rounded, and \<open>linspace(0, 10, 5)\<close> is
  \<open>[0, 2.5, 5, 7.5, 10]\<close> exactly. For \<open>n\<close> of \<open>2\<^sup>3\<^sup>2\<close> or more the call throws a
  \<open>RangeError\<close>.
\<close>

theorem linspace_points:
  assumes "2 \<le> n" "n < 2 ^ 32"
  shows "(\<exists>pts. linspace a b n = Inr pts \<and> length pts = n \<and>
            (\<forall>i<n. pts ! i = Num (a + real i * (b - a) / (real n - 1))) \<and>
            pts ! 0 = Num a \<and> pts ! (n - 1) = Num b) \<and>
         linspace 0 10 5 = Inr [Num 0, Num 2.5, Num 5, Num 7.5, Num 10] \<and>
         (\<exists>pts. linspace_f64 a b n = Inr pts \<and> length pts = n \<and>
            (\<forall>i<n. pts ! i = linspace_f64_at a b n i)) \<and>
         linspace_f64 0 10 5 = Inr [Fin 0, Fin 2.5, Fin 5, Fin 7.5, Fin 10] \<and>
         (\<forall>m. 2 ^ 32 \<le> m \<longrightarrow>
            linspace a b m = Inl RangeError \<and> linspace_f64 a b m = Inl RangeError)"
proof -
  let ?pts = "map (\<lambda>i. Num (a + real i * ((b - a) / (real n - 1)))) [0..<n]"
  have n1: "real n - 1 \<noteq> 0" using assms by simp
  have ls: "linspace a b n = Inr ?pts"
    using n1 assms(2) by (simp add: linspace_def)
  have 1: "length ?pts = n" by simp
  have 2: "\<forall>i<n. ?pts ! i = Num (a + real i * (b - a) / (real n - 1))" by simp
  have 3: "?pts ! 0 = Num a" using assms by simp
  have "real (n - 1) * ((b - a) / (real n - 1)) = b - a"
    using assms n1 by (simp add: of_nat_diff)
  then have 4: "?pts ! (n - 1) = Num b" using assms by simp
  have exact: "\<exists>pts. linspace a b n = Inr pts \<and> length pts = n \<and>
            (\<forall>i<n. pts ! i = Num (a + real i * (b - a) / (real n - 1))) \<and>
            pts ! 0 = Num a \<and> pts ! (n - 1) = Num b"
    using ls 1 2 3 4 by blast
  have 5: "linspace 0 10 5 = Inr [Num 0, Num 2.5, Num 5, Num 7.5, Num 10]"
    by (simp add: linspace_def upt_conv_Cons)
  have dbl: "\<exists>pts. linspace_f64 a b n = Inr pts \<and> length pts = n \<and>
            (\<forall>i<n. pts ! i = linspace_f64_at a b n i)"
    using assms(2) by (simp add: linspace_f64_def)
  have 6: "linspace_f64 0 10 5 = Inr [Fin 0, Fin 2.5, Fin 5, Fin 7.5, Fin 10]"
    using linspace_f64_0_10_5 by simp
  have 7: "\<forall>m. 2 ^ 32 \<le> m \<longrightarrow>
            linspace a b m = Inl RangeError \<and> linspace_f64 a b m = Inl RangeError"
    by (simp add: linspace_def linspace_f64_def)
  show ?thesis using exact 5 dbl 6 7 by blast
qed

theorem linspace_points_witness:
  "(2::nat) \<le> 3 \<and> (3::nat) < 2 ^ 32 \<and>
   linspace 1 2 3 = Inr [Num 1, Num 1.5, Num 2] \<and>
   (\<exists>pts. linspace_f64 1 2 3 = Inr pts \<and> length pts = 3) \<and>
   linspace 1 2 (2 ^ 32) = Inl RangeError"
proof -
  have h1: "(2::nat) \<le> 3" and h2: "(3::nat) < 2 ^ 32" by simp_all
  note t = linspace_points[OF h1 h2, of 1 2]
  obtain pts where pts: "linspace 1 2 3 = Inr pts" "length pts = 3"
      "\<forall>i<3. pts ! i = Num (1 + real i * (2 - 1) / (real 3 - 1))"
    using t by blast
  have "pts = [Num 1, Num 1.5, Num 2]"
    using pts(2,3) by (intro nth_equalityI) (auto simp: less_Suc_eq numeral_3_eq_3)
  then have 1: "linspace 1 2 3 = Inr [Num 1, Num 1.5, Num 2]" using pts(1) by simp
  have 2: "\<exists>pts. linspace_f64 1 2 3 = Inr pts \<and> length pts = 3" using t by blast
  have 3: "linspace 1 2 (2 ^ 32) = Inl RangeError" using t by blast
  show ?thesis using h1 h2 1 2 3 by blast
qed

end
